theory Spec2Isabelle
  imports Complex_Main "HOL-Library.Word"
begin

section \<open>Data model\<close>

text \<open>
  The notebook works on numpy arrays. An array is its shape together with its
  elements, addressed by an index tuple; the indices are Python integers, so the
  element function takes \<open>int\<close>s. Only the elements inside the shape are
  meaningful. Samples and weights are floating-point numbers in the notebook; the arrays
  of the model hold them as real numbers. Two models of \<open>convolve\<close> follow: one that
  computes with them exactly, and one that rounds every operation as the compiled
  function does.
\<close>

record 'a array2 =
  shape2 :: "nat \<times> nat"
  data2 :: "int \<Rightarrow> int \<Rightarrow> 'a"

record 'a array3 =
  shape3 :: "nat \<times> nat \<times> nat"
  data3 :: "int \<Rightarrow> int \<Rightarrow> int \<Rightarrow> 'a"

text \<open>
  The failures of the notebook's functions. \<open>ZeroDivisionError\<close> is what the
  compiled \<open>convolve\<close> raises on \<open>value / total\<close> with \<open>total = 0\<close>:
  \<open>@njit()\<close> keeps the compiler's default error model, the one of Python, under
  which a floating-point division by zero raises instead of giving NaN or an infinity.
  \<open>IndexError\<close> stands for an assignment to an element outside the shape; the
  compiled code does not check bounds, and what it overwrites there is not defined, so
  the model stops. \<open>FileNotFoundError\<close> is \<open>Image.open\<close> on a missing file.
  \<open>NonFiniteKernel\<close> marks a generated kernel holding NaN or an infinity, which
  the real-valued model of \<open>convolve\<close> does not follow any further.
\<close>

datatype error = ZeroDivisionError | IndexError | FileNotFoundError | NonFiniteKernel

text \<open>
  Arrays are shared mutable objects: \<open>convolve\<close> writes into the array its caller
  passed. The store maps addresses to arrays, three-dimensional images and
  two-dimensional kernels apart, and holds the files by path (a file is the decoded
  height x width x channel array of 8-bit samples).
\<close>

record store =
  heap :: "nat \<Rightarrow> real array3"
  kheap :: "nat \<Rightarrow> real array2"
  next_free :: nat
  files :: "string \<Rightarrow> 8 word array3 option"

section \<open>Array access\<close>

text \<open>
  Indexing along one axis of extent \<open>n\<close>: a negative index counts from the end. The
  compiled \<open>convolve\<close> compares no index with the extent. A read outside the shape
  returns what the memory holds there; the element function outside the shape stands for
  it, and nothing is known of these values.
\<close>

definition wrap_index :: "nat \<Rightarrow> int \<Rightarrow> int" where
  "wrap_index n i = (if i < 0 then i + int n else i)"

definition getitem2 :: "'a array2 \<Rightarrow> int \<Rightarrow> int \<Rightarrow> 'a" where
  "getitem2 a i j = data2 a (wrap_index (fst (shape2 a)) i) (wrap_index (snd (shape2 a)) j)"

definition getitem3 :: "'a array3 \<Rightarrow> int \<Rightarrow> int \<Rightarrow> int \<Rightarrow> 'a" where
  "getitem3 a c v u =
     data3 a (wrap_index (fst (shape3 a)) c) (wrap_index (fst (snd (shape3 a))) v)
       (wrap_index (snd (snd (shape3 a))) u)"

text \<open>
  A write outside the shape overwrites memory that belongs to something else. Its effect
  cannot be told from the arrays of the store, so the model stops there, with
  \<open>IndexError\<close>; inside the shape the element is replaced.
\<close>

definition norm_index :: "nat \<Rightarrow> int \<Rightarrow> int option" where
  "norm_index n i =
     (let j = wrap_index n i
      in if 0 \<le> j \<and> j < int n then Some j else None)"

definition setitem3 :: "store \<Rightarrow> nat \<Rightarrow> int \<Rightarrow> int \<Rightarrow> int \<Rightarrow> real \<Rightarrow> error + store" where
  "setitem3 s r c y x val =
     (let a = heap s r in
      case (norm_index (fst (shape3 a)) c,
            norm_index (fst (snd (shape3 a))) y,
            norm_index (snd (snd (shape3 a))) x) of
        (Some c', Some y', Some x') \<Rightarrow>
          Inr (s\<lparr>heap := (heap s)(r := a\<lparr>data3 :=
                 (\<lambda>c1 y1 x1. if c1 = c' \<and> y1 = y' \<and> x1 = x' then val else data3 a c1 y1 x1)\<rparr>)\<rparr>)
      | _ \<Rightarrow> Inl IndexError)"

section \<open>Loops\<close>

text \<open>
  A \<open>for\<close> loop over a list of indices whose body may raise: the first error ends the
  loop, as the exception does.
\<close>

fun for_each :: "('a \<Rightarrow> 's \<Rightarrow> error + 's) \<Rightarrow> 'a list \<Rightarrow> 's \<Rightarrow> error + 's" where
  "for_each body [] s = Inr s"
| "for_each body (a # as) s =
     (case body a s of Inl e \<Rightarrow> Inl e | Inr s' \<Rightarrow> for_each body as s')"

text \<open>\<open>range(n)\<close> and \<open>range(a, b)\<close>.\<close>

definition range1 :: "nat \<Rightarrow> int list" where
  "range1 n = [0..int n - 1]"

definition range2 :: "int \<Rightarrow> int \<Rightarrow> int list" where
  "range2 a b = [a..b - 1]"

section \<open>Floating-point rounding\<close>

text \<open>
  The notebook computes in binary floating point: its arrays hold \<open>float32\<close> numbers,
  Python floats are \<open>float64\<close>. The result of an operation is the exact result rounded
  to the nearest number of the format, and to the one with the even last digit when two
  are equally near.

  Rounding to the nearest integer, ties to even:
\<close>

definition rne :: "real \<Rightarrow> int" where
  "rne r = (let f = \<lfloor>r\<rfloor> in
            if r - of_int f < 1 / 2 then f
            else if 1 / 2 < r - of_int f then f + 1
            else if even f then f else f + 1)"

text \<open>
  The numbers of a format with \<open>p\<close> binary digits are the multiples \<open>m * 2^q\<close> of a
  power of two with \<open>q \<ge> emin\<close>, the integer \<open>m\<close> having at most \<open>p\<close> digits. The
  value \<open>x\<close> is rounded on the grid of the multiples of \<open>2^q\<close>, where \<open>q\<close> is the
  exponent that leaves \<open>p\<close> digits, and \<open>emin\<close> for the values below the normal range.
  The format's largest exponent is not modelled: a result beyond the largest finite
  number, where the machine gives an infinity, does not arise from the samples and
  weights considered here.
\<close>

definition float_round :: "nat \<Rightarrow> int \<Rightarrow> real \<Rightarrow> real" where
  "float_round p emin x =
     (if x = 0 then 0
      else let q = max (\<lfloor>log 2 \<bar>x\<bar>\<rfloor> - (int p - 1)) emin
           in of_int (rne (x / power_int 2 q)) * power_int 2 q)"

text \<open>\<open>float32\<close>: 24 digits, least positive number \<open>2^-149\<close>; \<open>float64\<close>: 53 digits, \<open>2^-1074\<close>.\<close>

definition float32 :: "real \<Rightarrow> real" where
  "float32 = float_round 24 (- 149)"

definition float64 :: "real \<Rightarrow> real" where
  "float64 = float_round 53 (- 1074)"

section \<open>convolve\<close>

text \<open>
  The body of the two innermost loops:
  \<^verbatim>\<open>tmp = kernel[v - y + kernel_halfh, u - x + kernel_halfw]\<close>,
  \<^verbatim>\<open>value += image[c, v, u] * tmp\<close>, \<^verbatim>\<open>total += tmp\<close>.
  The accumulator is the pair \<open>(value, total)\<close>.
\<close>

definition tap_step ::
  "real array3 \<Rightarrow> real array2 \<Rightarrow> int \<Rightarrow> int \<Rightarrow> int \<Rightarrow> int \<Rightarrow> int \<Rightarrow> int \<Rightarrow> int
     \<Rightarrow> real \<times> real \<Rightarrow> error + real \<times> real" where
  "tap_step img kern kernel_halfh kernel_halfw c x y u v acc =
     (let tmp = getitem2 kern (v - y + kernel_halfh) (u - x + kernel_halfw)
      in Inr (fst acc + getitem3 img c v u * tmp, snd acc + tmp))"

text \<open>
  The body of the loop over the channels: accumulate over the window, then
  \<^verbatim>\<open>output[c, y, x] = value / total\<close>. The image is read from the store as it is
  when the channel is processed, so writes into an output that is the same array as the
  image are seen by later reads.
\<close>

definition channel_step ::
  "nat \<Rightarrow> nat \<Rightarrow> real array2 \<Rightarrow> int \<Rightarrow> int \<Rightarrow> int \<Rightarrow> int \<Rightarrow> int \<Rightarrow> int \<Rightarrow> int \<Rightarrow> int
     \<Rightarrow> int \<Rightarrow> store \<Rightarrow> error + store" where
  "channel_step image_ref output_ref kern kernel_halfh kernel_halfw x y x_min x_max y_min y_max c s =
     (case for_each
             (\<lambda>u. for_each (tap_step (heap s image_ref) kern kernel_halfh kernel_halfw c x y u)
                     (range2 y_min (y_max + 1)))
             (range2 x_min (x_max + 1)) (0, 0) of
        Inl e \<Rightarrow> Inl e
      | Inr (val, tot) \<Rightarrow>
          if tot = 0 then Inl ZeroDivisionError
          else setitem3 s output_ref c y x (val / tot))"

text \<open>
  The body of the loop over the rows: the clamped window of the position \<open>(y, x)\<close>,
  then the loop over the channels.
\<close>

definition pixel_step ::
  "nat \<Rightarrow> nat \<Rightarrow> real array2 \<Rightarrow> nat \<Rightarrow> nat \<Rightarrow> nat \<Rightarrow> int \<Rightarrow> int \<Rightarrow> int \<Rightarrow> int
     \<Rightarrow> store \<Rightarrow> error + store" where
  "pixel_step image_ref output_ref kern channel_count image_height image_width
       kernel_halfh kernel_halfw x y s =
     (let x_min = max 0 (x - kernel_halfw);
          x_max = min (int image_width - 1) (x + kernel_halfw);
          y_min = max 0 (y - kernel_halfh);
          y_max = min (int image_height - 1) (y + kernel_halfh)
      in for_each
           (channel_step image_ref output_ref kern kernel_halfh kernel_halfw
              x y x_min x_max y_min y_max)
           (range1 channel_count) s)"

text \<open>
  \<open>convolve(image, output, kernel)\<close>, on the addresses of its three arguments.
  The shapes and the kernel are read once, at the start: the function assigns to
  elements of \<open>output\<close> only, a three-dimensional array, so no shape and no element
  of the two-dimensional kernel changes during the call. The loops run over the columns,
  the rows and the channels of the image, in this order.
\<close>

definition convolve :: "store \<Rightarrow> nat \<Rightarrow> nat \<Rightarrow> nat \<Rightarrow> error + store" where
  "convolve s image_ref output_ref kernel_ref =
     (let img = heap s image_ref;
          channel_count = fst (shape3 img);
          image_height = fst (snd (shape3 img));
          image_width = snd (snd (shape3 img));
          kern = kheap s kernel_ref;
          kernel_height = fst (shape2 kern);
          kernel_halfh = int kernel_height div 2;
          kernel_width = snd (shape2 kern);
          kernel_halfw = int kernel_width div 2
      in for_each
           (\<lambda>x. for_each
                   (pixel_step image_ref output_ref kern channel_count image_height
                      image_width kernel_halfh kernel_halfw x)
                   (range1 image_height))
           (range1 image_width) s)"

section \<open>convolve, with the rounding of every operation\<close>

text \<open>
  The same function, computing as the compiled code does on \<open>float32\<close> arrays. The
  product \<^verbatim>\<open>image[c, v, u] * tmp\<close> of two \<open>float32\<close> numbers is a \<open>float32\<close>;
  \<open>value\<close> and \<open>total\<close> are \<open>float64\<close> variables, so each \<open>+=\<close> is a \<open>float64\<close>
  addition; \<open>value / total\<close> is a \<open>float64\<close> division, whose result the assignment to
  an element of the \<open>float32\<close> output rounds once more. The test for a zero divisor is on
  the \<open>float64\<close> total.
\<close>

definition tap_step_rounded ::
  "real array3 \<Rightarrow> real array2 \<Rightarrow> int \<Rightarrow> int \<Rightarrow> int \<Rightarrow> int \<Rightarrow> int \<Rightarrow> int \<Rightarrow> int
     \<Rightarrow> real \<times> real \<Rightarrow> error + real \<times> real" where
  "tap_step_rounded img kern kernel_halfh kernel_halfw c x y u v acc =
     (let tmp = getitem2 kern (v - y + kernel_halfh) (u - x + kernel_halfw)
      in Inr (float64 (fst acc + float32 (getitem3 img c v u * tmp)), float64 (snd acc + tmp)))"

definition channel_step_rounded ::
  "nat \<Rightarrow> nat \<Rightarrow> real array2 \<Rightarrow> int \<Rightarrow> int \<Rightarrow> int \<Rightarrow> int \<Rightarrow> int \<Rightarrow> int \<Rightarrow> int \<Rightarrow> int
     \<Rightarrow> int \<Rightarrow> store \<Rightarrow> error + store" where
  "channel_step_rounded image_ref output_ref kern kernel_halfh kernel_halfw x y
       x_min x_max y_min y_max c s =
     (case for_each
             (\<lambda>u. for_each
                     (tap_step_rounded (heap s image_ref) kern kernel_halfh kernel_halfw c x y u)
                     (range2 y_min (y_max + 1)))
             (range2 x_min (x_max + 1)) (0, 0) of
        Inl e \<Rightarrow> Inl e
      | Inr (val, tot) \<Rightarrow>
          if tot = 0 then Inl ZeroDivisionError
          else setitem3 s output_ref c y x (float32 (float64 (val / tot))))"

definition pixel_step_rounded ::
  "nat \<Rightarrow> nat \<Rightarrow> real array2 \<Rightarrow> nat \<Rightarrow> nat \<Rightarrow> nat \<Rightarrow> int \<Rightarrow> int \<Rightarrow> int \<Rightarrow> int
     \<Rightarrow> store \<Rightarrow> error + store" where
  "pixel_step_rounded image_ref output_ref kern channel_count image_height image_width
       kernel_halfh kernel_halfw x y s =
     (let x_min = max 0 (x - kernel_halfw);
          x_max = min (int image_width - 1) (x + kernel_halfw);
          y_min = max 0 (y - kernel_halfh);
          y_max = min (int image_height - 1) (y + kernel_halfh)
      in for_each
           (channel_step_rounded image_ref output_ref kern kernel_halfh kernel_halfw
              x y x_min x_max y_min y_max)
           (range1 channel_count) s)"

definition convolve_rounded :: "store \<Rightarrow> nat \<Rightarrow> nat \<Rightarrow> nat \<Rightarrow> error + store" where
  "convolve_rounded s image_ref output_ref kernel_ref =
     (let img = heap s image_ref;
          channel_count = fst (shape3 img);
          image_height = fst (snd (shape3 img));
          image_width = snd (snd (shape3 img));
          kern = kheap s kernel_ref;
          kernel_height = fst (shape2 kern);
          kernel_halfh = int kernel_height div 2;
          kernel_width = snd (shape2 kern);
          kernel_halfw = int kernel_width div 2
      in for_each
           (\<lambda>x. for_each
                   (pixel_step_rounded image_ref output_ref kern channel_count image_height
                      image_width kernel_halfh kernel_halfw x)
                   (range1 image_height))
           (range1 image_width) s)"

section \<open>Kernel generation\<close>

text \<open>
  The generators divide numpy arrays, where a division by zero does not raise: it gives
  NaN or an infinity. The values of these arrays are therefore real numbers extended
  by the three special values.
\<close>

datatype npfloat = Num real | PInf | NInf | NaN

text \<open>Division of two finite values, as numpy's \<open>/\<close> on arrays does it.\<close>

definition np_true_divide :: "real \<Rightarrow> real \<Rightarrow> npfloat" where
  "np_true_divide a b =
     (if b \<noteq> 0 then Num (a / b)
      else if a = 0 then NaN
      else if 0 < a then PInf else NInf)"

fun np_exp :: "npfloat \<Rightarrow> npfloat" where
  "np_exp (Num a) = Num (exp a)"
| "np_exp PInf = PInf"
| "np_exp NInf = Num 0"
| "np_exp NaN = NaN"

fun np_add :: "npfloat \<Rightarrow> npfloat \<Rightarrow> npfloat" where
  "np_add (Num a) (Num b) = Num (a + b)"
| "np_add NaN _ = NaN"
| "np_add _ NaN = NaN"
| "np_add PInf NInf = NaN"
| "np_add NInf PInf = NaN"
| "np_add PInf _ = PInf"
| "np_add _ PInf = PInf"
| "np_add NInf _ = NInf"
| "np_add _ NInf = NInf"

fun np_divide :: "npfloat \<Rightarrow> npfloat \<Rightarrow> npfloat" where
  "np_divide (Num a) (Num b) = np_true_divide a b"
| "np_divide (Num a) PInf = Num 0"
| "np_divide (Num a) NInf = Num 0"
| "np_divide PInf (Num b) = (if 0 \<le> b then PInf else NInf)"
| "np_divide NInf (Num b) = (if 0 \<le> b then NInf else PInf)"
| "np_divide PInf PInf = NaN"
| "np_divide PInf NInf = NaN"
| "np_divide NInf PInf = NaN"
| "np_divide NInf NInf = NaN"
| "np_divide NaN b = NaN"
| "np_divide a NaN = NaN"

text \<open>\<open>np.sum\<close> of a one-dimensional and of a two-dimensional array.\<close>

definition np_sum1 :: "npfloat list \<Rightarrow> npfloat" where
  "np_sum1 xs = foldl np_add (Num 0) xs"

definition elements2 :: "'a array2 \<Rightarrow> 'a list" where
  "elements2 a =
     concat (map (\<lambda>i. map (\<lambda>j. data2 a i j) (range1 (snd (shape2 a)))) (range1 (fst (shape2 a))))"

definition np_sum2 :: "npfloat array2 \<Rightarrow> npfloat" where
  "np_sum2 a = foldl np_add (Num 0) (elements2 a)"

text \<open>
  \<open>np.arange(start, stop)\<close> on integral bounds, and \<open>np.meshgrid(xs, ys)\<close>: two
  arrays of shape \<open>(len(ys), len(xs))\<close>, the first repeating \<open>xs\<close> along the rows,
  the second repeating \<open>ys\<close> along the columns.
\<close>

definition arange :: "int \<Rightarrow> int \<Rightarrow> real list" where
  "arange start stop = map real_of_int (range2 start stop)"

definition meshgrid :: "real list \<Rightarrow> real list \<Rightarrow> real array2 \<times> real array2" where
  "meshgrid xs ys =
     (\<lparr>shape2 = (length ys, length xs), data2 = (\<lambda>i j. xs ! nat j)\<rparr>,
      \<lparr>shape2 = (length ys, length xs), data2 = (\<lambda>i j. ys ! nat i)\<rparr>)"

text \<open>
  The divisor \<^verbatim>\<open>2. * sigma**2\<close> is a Python float: the square is a \<open>float64\<close>,
  doubling it is exact. The array it divides holds \<open>float32\<close> numbers, and numpy divides
  in \<open>float32\<close>: the divisor is brought to that format first, where a value of at most
  \<open>2^-150\<close> becomes zero. This is the one rounding of the generators that decides whether
  their weights are finite, and the one that is modelled; the grid, the squares, the
  exponential, the sum and the final division are exact here.
\<close>

definition divisor :: "real \<Rightarrow> real" where
  "divisor sigma = float32 (2 * float64 (sigma\<^sup>2))"

text \<open>
  \<^verbatim>\<open>kernel_radius = np.ceil(sigma) * 3\<close>; the grid runs from \<open>-kernel_radius\<close> to
  \<open>kernel_radius\<close>; \<^verbatim>\<open>kernel = np.exp(-(xx**2 + yy**2) / (2. * sigma**2))\<close>;
  \<^verbatim>\<open>return kernel / np.sum(kernel)\<close>. The function has no check of \<open>sigma\<close> and
  no \<open>raise\<close>. (\<open>kernel_size\<close> is computed by the notebook and never used.)
\<close>

definition gaussian_kernel_2d :: "real \<Rightarrow> npfloat array2" where
  "gaussian_kernel_2d sigma =
     (let kernel_radius = \<lceil>sigma\<rceil> * 3;
          ax = arange (- kernel_radius) (kernel_radius + 1);
          (xx, yy) = meshgrid ax ax;
          kern = \<lparr>shape2 = shape2 xx,
                  data2 = (\<lambda>i j. np_exp (np_true_divide
                             (- ((data2 xx i j)\<^sup>2 + (data2 yy i j)\<^sup>2)) (divisor sigma)))\<rparr>;
          total_w = np_sum2 kern
      in \<lparr>shape2 = shape2 kern, data2 = (\<lambda>i j. np_divide (data2 kern i j) total_w)\<rparr>)"

text \<open>
  The one-dimensional kernel, reshaped to one row:
  \<^verbatim>\<open>(kernel / np.sum(kernel)).reshape(1, kernel.shape[0])\<close>.
\<close>

definition gaussian_kernel_1d :: "real \<Rightarrow> npfloat array2" where
  "gaussian_kernel_1d sigma =
     (let kernel_radius = \<lceil>sigma\<rceil> * 3;
          ax = arange (- kernel_radius) (kernel_radius + 1);
          kern = map (\<lambda>a. np_exp (np_true_divide (- (a\<^sup>2)) (divisor sigma))) ax;
          total_w = np_sum1 kern;
          normed = map (\<lambda>w. np_divide w total_w) kern
      in \<lparr>shape2 = (1, length kern), data2 = (\<lambda>i j. normed ! nat j)\<rparr>)"

definition transpose2 :: "'a array2 \<Rightarrow> 'a array2" where
  "transpose2 a = \<lparr>shape2 = (snd (shape2 a), fst (shape2 a)), data2 = (\<lambda>i j. data2 a j i)\<rparr>"

section \<open>Reading and writing images\<close>

text \<open>
  \<open>read_image\<close>: the decoded file is a height x width x channel array of bytes;
  \<^verbatim>\<open>img.transpose(2,0,1)\<close> as \<open>float32\<close>, then \<^verbatim>\<open>arr /= 255\<close>. The new array gets a
  fresh address. The codec of the image library is outside the model: a file is the
  array it decodes to.
\<close>

definition read_image :: "store \<Rightarrow> string \<Rightarrow> error + store \<times> nat" where
  "read_image s path =
     (case files s path of
        None \<Rightarrow> Inl FileNotFoundError
      | Some raw \<Rightarrow>
          (let (h, w, ch) = shape3 raw;
               arr = \<lparr>shape3 = (ch, h, w),
                      data3 = (\<lambda>c y x. real (unat (data3 raw y x c)) / 255)\<rparr>
           in Inr (s\<lparr>heap := (heap s)(next_free s := arr), next_free := next_free s + 1\<rparr>,
                   next_free s)))"

text \<open>
  \<open>astype(np.uint8)\<close> is an unchecked conversion: the fraction is dropped (rounding
  towards zero) and the integer is reduced to its low eight bits. (For a value outside
  0..255 numpy promises nothing; this is what the conversion does on x86-64.)
\<close>

definition truncate_real :: "real \<Rightarrow> int" where
  "truncate_real v = (if 0 \<le> v then \<lfloor>v\<rfloor> else \<lceil>v\<rceil>)"

definition astype_uint8 :: "real \<Rightarrow> 8 word" where
  "astype_uint8 v = word_of_int (truncate_real v)"

text \<open>
  \<open>write_image\<close>: \<^verbatim>\<open>img *= 255\<close> multiplies the caller's array in place; the
  transposed, converted copy \<^verbatim>\<open>img.transpose(1,2,0).astype(np.uint8)\<close> is a new array
  bound to the local name and saved under \<open>path\<close>.
\<close>

definition write_image :: "store \<Rightarrow> nat \<Rightarrow> string \<Rightarrow> store" where
  "write_image s img_ref path =
     (let a = heap s img_ref;
          scaled = a\<lparr>data3 := (\<lambda>c y x. data3 a c y x * 255)\<rparr>;
          s1 = s\<lparr>heap := (heap s)(img_ref := scaled)\<rparr>;
          (ch, h, w) = shape3 scaled;
          bytes = \<lparr>shape3 = (h, w, ch),
                   data3 = (\<lambda>y x c. astype_uint8 (data3 scaled c y x))\<rparr>
      in s1\<lparr>files := (files s1)(path \<mapsto> bytes)\<rparr>)"

section \<open>main\<close>

text \<open>\<open>np.zeros(shape)\<close>: a new array of zeros at a fresh address.\<close>

definition np_zeros :: "store \<Rightarrow> nat \<times> nat \<times> nat \<Rightarrow> store \<times> nat" where
  "np_zeros s sh =
     (s\<lparr>heap := (heap s)(next_free s := \<lparr>shape3 = sh, data3 = (\<lambda>c y x. 0)\<rparr>),
        next_free := next_free s + 1\<rparr>,
      next_free s)"

text \<open>
  A generated kernel becomes an object of the store. A kernel holding a special value
  is the outcome \<open>NonFiniteKernel\<close>: the real-valued \<open>convolve\<close> is not run on it.
\<close>

fun num_value :: "npfloat \<Rightarrow> real" where
  "num_value (Num a) = a"
| "num_value _ = 0"

fun is_num :: "npfloat \<Rightarrow> bool" where
  "is_num (Num a) = True"
| "is_num _ = False"

definition real_kernel :: "npfloat array2 \<Rightarrow> real array2" where
  "real_kernel k = \<lparr>shape2 = shape2 k, data2 = (\<lambda>i j. num_value (data2 k i j))\<rparr>"

definition new_kernel :: "store \<Rightarrow> npfloat array2 \<Rightarrow> error + store \<times> nat" where
  "new_kernel s k =
     (if list_all is_num (elements2 k)
      then Inr (s\<lparr>kheap := (kheap s)(next_free s := real_kernel k),
                  next_free := next_free s + 1\<rparr>,
                next_free s)
      else Inl NonFiniteKernel)"

text \<open>\<open>kernel_1d.transpose()\<close>: a view, which nothing writes to; a kernel object of its own.\<close>

definition transpose_kernel :: "store \<Rightarrow> nat \<Rightarrow> store \<times> nat" where
  "transpose_kernel s k =
     (s\<lparr>kheap := (kheap s)(next_free s := transpose2 (kheap s k)),
        next_free := next_free s + 1\<rparr>,
      next_free s)"

text \<open>
  The calls of \<open>convolve\<close> that \<open>main\<close> makes are recorded, in order, as the
  triples (image, output, kernel) of the addresses passed. The record is kept beside the
  store and takes no part in the computation.
\<close>

type_synonym call_log = "(nat \<times> nat \<times> nat) list"

definition logged_convolve ::
  "store \<times> call_log \<Rightarrow> nat \<Rightarrow> nat \<Rightarrow> nat \<Rightarrow> error + store \<times> call_log" where
  "logged_convolve sl image_ref output_ref kernel_ref =
     (case convolve (fst sl) image_ref output_ref kernel_ref of
        Inl e \<Rightarrow> Inl e
      | Inr s' \<Rightarrow> Inr (s', snd sl @ [(image_ref, output_ref, kernel_ref)]))"

text \<open>
  The filtering part of \<open>main\<close>, from the decoded image to the filtered output: the
  output array is allocated, then either one pass with the two-dimensional kernel or
  two passes with the one-dimensional kernel and its transpose, through the
  intermediate array. The result is the store, the address of \<open>output\<close> and the calls made.
\<close>

definition filter_image :: "store \<Rightarrow> nat \<Rightarrow> real \<Rightarrow> bool \<Rightarrow> error + store \<times> nat \<times> call_log" where
  "filter_image s0 img sigma seperate_filters =
     (let (s1, output) = np_zeros s0 (shape3 (heap s0 img)) in
      if \<not> seperate_filters then
        (case new_kernel s1 (gaussian_kernel_2d sigma) of
           Inl e \<Rightarrow> Inl e
         | Inr (s2, kernel_2d) \<Rightarrow>
             (case logged_convolve (s2, []) img output kernel_2d of
                Inl e \<Rightarrow> Inl e
              | Inr (s3, calls) \<Rightarrow> Inr (s3, output, calls)))
      else
        (case new_kernel s1 (gaussian_kernel_1d sigma) of
           Inl e \<Rightarrow> Inl e
         | Inr (s2, kernel_1d) \<Rightarrow>
             (let (s3, intermediate) = np_zeros s2 (shape3 (heap s2 img)) in
              case logged_convolve (s3, []) img intermediate kernel_1d of
                Inl e \<Rightarrow> Inl e
              | Inr (s4, calls) \<Rightarrow>
                  (let (s5, kernel_1d_t) = transpose_kernel s4 kernel_1d in
                   case logged_convolve (s5, calls) intermediate output kernel_1d_t of
                     Inl e \<Rightarrow> Inl e
                   | Inr (s6, calls') \<Rightarrow> Inr (s6, output, calls')))))"

definition main :: "store \<Rightarrow> string \<Rightarrow> string \<Rightarrow> real \<Rightarrow> bool \<Rightarrow> error + store" where
  "main s input_file output_file sigma seperate_filters =
     (case read_image s input_file of
        Inl e \<Rightarrow> Inl e
      | Inr (s0, img) \<Rightarrow>
          (case filter_image s0 img sigma seperate_filters of
             Inl e \<Rightarrow> Inl e
           | Inr (s1, output, calls) \<Rightarrow> Inr (write_image s1 output output_file)))"

section \<open>The window average, as the specification words it\<close>

text \<open>
  The indices inside a shape \<open>(C, H, W)\<close>, as triples (channel, row, column).
\<close>

definition positions :: "nat \<times> nat \<times> nat \<Rightarrow> (int \<times> int \<times> int) set" where
  "positions sh = {(c, y, x). 0 \<le> c \<and> c < int (fst sh) \<and> 0 \<le> y \<and> y < int (fst (snd sh))
                      \<and> 0 \<le> x \<and> x < int (snd (snd sh))}"

text \<open>
  The specification's sums at position \<open>(y, x)\<close>: over \<open>u\<close> from
  \<open>x_min = max(0, x - kHalfW)\<close> to \<open>x_max = min(W - 1, x + kHalfW)\<close> and \<open>v\<close> from
  \<open>y_min = max(0, y - kHalfH)\<close> to \<open>y_max = min(H - 1, y + kHalfH)\<close>, of
  \<open>input[c,v,u] * kernel[v - y + kHalfH, u - x + kHalfW]\<close>, and of the kernel weights
  alone, with \<open>kHalfW = kW / 2\<close> and \<open>kHalfH = kH / 2\<close> in integer division.
\<close>

definition weighted_sum :: "real array3 \<Rightarrow> real array2 \<Rightarrow> int \<Rightarrow> int \<Rightarrow> int \<Rightarrow> real" where
  "weighted_sum img kern c y x =
     (let kHalfH = int (fst (shape2 kern)) div 2;
          kHalfW = int (snd (shape2 kern)) div 2;
          H = int (fst (snd (shape3 img)));
          W = int (snd (snd (shape3 img)))
      in \<Sum>u = max 0 (x - kHalfW)..min (W - 1) (x + kHalfW).
           \<Sum>v = max 0 (y - kHalfH)..min (H - 1) (y + kHalfH).
             data3 img c v u * data2 kern (v - y + kHalfH) (u - x + kHalfW))"

definition weight_total :: "real array3 \<Rightarrow> real array2 \<Rightarrow> int \<Rightarrow> int \<Rightarrow> real" where
  "weight_total img kern y x =
     (let kHalfH = int (fst (shape2 kern)) div 2;
          kHalfW = int (snd (shape2 kern)) div 2;
          H = int (fst (snd (shape3 img)));
          W = int (snd (snd (shape3 img)))
      in \<Sum>u = max 0 (x - kHalfW)..min (W - 1) (x + kHalfW).
           \<Sum>v = max 0 (y - kHalfH)..min (H - 1) (y + kHalfH).
             data2 kern (v - y + kHalfH) (u - x + kHalfW))"

definition out_value :: "real array3 \<Rightarrow> real array2 \<Rightarrow> int \<Rightarrow> int \<Rightarrow> int \<Rightarrow> real" where
  "out_value img kern c y x = weighted_sum img kern c y x / weight_total img kern y x"

text \<open>
  The taps of the window at position \<open>(y, x)\<close> of channel \<open>c\<close>, in the order of the two
  inner loops: the sample under each tap and its weight.
\<close>

definition window_taps :: "real array3 \<Rightarrow> real array2 \<Rightarrow> int \<Rightarrow> int \<Rightarrow> int \<Rightarrow> (real \<times> real) list" where
  "window_taps img kern c y x =
     (let kHalfH = int (fst (shape2 kern)) div 2;
          kHalfW = int (snd (shape2 kern)) div 2;
          H = int (fst (snd (shape3 img)));
          W = int (snd (snd (shape3 img)))
      in map (\<lambda>(u, v). (data3 img c v u, data2 kern (v - y + kHalfH) (u - x + kHalfW)))
           (List.product [max 0 (x - kHalfW)..min (W - 1) (x + kHalfW)]
                         [max 0 (y - kHalfH)..min (H - 1) (y + kHalfH)]))"

text \<open>
  The two sums as the rounded loops accumulate them, tap after tap, and the value
  written from them.
\<close>

definition rounded_sums :: "(real \<times> real) list \<Rightarrow> real \<times> real" where
  "rounded_sums taps =
     foldl (\<lambda>acc (px, w). (float64 (fst acc + float32 (px * w)), float64 (snd acc + w)))
       (0, 0) taps"

definition rounded_quotient :: "real \<times> real \<Rightarrow> real" where
  "rounded_quotient acc = float32 (float64 (fst acc / snd acc))"

definition out_value_rounded :: "real array3 \<Rightarrow> real array2 \<Rightarrow> int \<Rightarrow> int \<Rightarrow> int \<Rightarrow> real" where
  "out_value_rounded img kern c y x = rounded_quotient (rounded_sums (window_taps img kern c y x))"

text \<open>A list of numbers added up from the left, every partial sum rounded to \<open>float64\<close>.\<close>

definition float64_sum :: "real list \<Rightarrow> real" where
  "float64_sum zs = foldl (\<lambda>acc z. float64 (acc + z)) 0 zs"

text \<open>
  The clamped window at position \<open>(y, x)\<close>, as the set of the pairs \<open>(u, v)\<close> the two
  inner loops visit.
\<close>

definition window :: "real array3 \<Rightarrow> real array2 \<Rightarrow> int \<Rightarrow> int \<Rightarrow> (int \<times> int) set" where
  "window img kern y x =
     (let kHalfH = int (fst (shape2 kern)) div 2;
          kHalfW = int (snd (shape2 kern)) div 2;
          H = int (fst (snd (shape3 img)));
          W = int (snd (snd (shape3 img)))
      in {max 0 (x - kHalfW)..min (W - 1) (x + kHalfW)}
           \<times> {max 0 (y - kHalfH)..min (H - 1) (y + kHalfH)})"


text \<open>
  The array \<open>convolve\<close> leaves in an output of zeros of the image's shape: the window
  averages of \<open>img\<close> under \<open>kern\<close> at the positions of the image.
\<close>

definition filtered :: "real array3 \<Rightarrow> real array2 \<Rightarrow> real array3" where
  "filtered img kern =
     \<lparr>shape3 = shape3 img,
      data3 = (\<lambda>c y x. if (c, y, x) \<in> positions (shape3 img)
                        then out_value img kern c y x else 0)\<rparr>"

section \<open>Notions used in the proofs\<close>

text \<open>
  The store after the elements \<open>P\<close> of the array at \<open>r\<close> have been overwritten with
  the values \<open>f\<close>; nothing else differs.
\<close>

definition written ::
  "store \<Rightarrow> nat \<Rightarrow> (int \<Rightarrow> int \<Rightarrow> int \<Rightarrow> real) \<Rightarrow> (int \<times> int \<times> int) set \<Rightarrow> store" where
  "written s r f P =
     s\<lparr>heap := (heap s)(r := (heap s r)\<lparr>data3 :=
          (\<lambda>c y x. if (c, y, x) \<in> P then f c y x else data3 (heap s r) c y x)\<rparr>)\<rparr>"

text \<open>
  What a call that writes into the array at \<open>r\<close> may change: the elements of that
  array, and nothing else in the store.
\<close>

definition only_written :: "nat \<Rightarrow> store \<Rightarrow> store \<Rightarrow> bool" where
  "only_written r s s' =
     ((\<forall>q. q \<noteq> r \<longrightarrow> heap s' q = heap s q)
      \<and> shape3 (heap s' r) = shape3 (heap s r)
      \<and> kheap s' = kheap s \<and> next_free s' = next_free s \<and> files s' = files s)"

text \<open>
  The Gaussian at the integer offset \<open>k\<close> from the centre, before normalisation, for the
  divisor \<open>d\<close> of the exponent.
\<close>

definition gauss :: "real \<Rightarrow> int \<Rightarrow> real" where
  "gauss d k = exp (- ((real_of_int k)\<^sup>2) / d)"

text \<open>The cell of the 2D grid at the offsets \<open>dx\<close> and \<open>dy\<close> from the centre.\<close>

definition cell :: "real \<Rightarrow> int \<Rightarrow> int \<Rightarrow> real" where
  "cell d dx dy = exp (- ((real_of_int dx)\<^sup>2 + (real_of_int dy)\<^sup>2) / d)"

text \<open>The radius and the side length of the generated kernels.\<close>

definition radius :: "real \<Rightarrow> int" where
  "radius sigma = \<lceil>sigma\<rceil> * 3"

definition side :: "real \<Rightarrow> nat" where
  "side sigma = nat (2 * radius sigma + 1)"

section \<open>Example stores\<close>

definition empty_store :: store where
  "empty_store =
     \<lparr>heap = (\<lambda>r. \<lparr>shape3 = (0, 0, 0), data3 = (\<lambda>c y x. 0)\<rparr>),
      kheap = (\<lambda>r. \<lparr>shape2 = (0, 0), data2 = (\<lambda>i j. 0)\<rparr>),
      next_free = 0,
      files = (\<lambda>p. None)\<rparr>"

text \<open>
  A store with an image at address 0, an output array of zeros at address 1 and a
  kernel at address 0 of the kernels.
\<close>

definition example_store ::
  "nat \<times> nat \<times> nat \<Rightarrow> (int \<Rightarrow> int \<Rightarrow> int \<Rightarrow> real) \<Rightarrow> nat \<times> nat \<times> nat
     \<Rightarrow> nat \<times> nat \<Rightarrow> (int \<Rightarrow> int \<Rightarrow> real) \<Rightarrow> store" where
  "example_store ish idata osh ksh kdata =
     empty_store\<lparr>heap := (heap empty_store)
                   (0 := \<lparr>shape3 = ish, data3 = idata\<rparr>,
                    1 := \<lparr>shape3 = osh, data3 = (\<lambda>c y x. 0)\<rparr>),
                 kheap := (kheap empty_store)(0 := \<lparr>shape2 = ksh, data2 = kdata\<rparr>),
                 next_free := 2\<rparr>"

text \<open>A row of two pixels, 3 and 5, and the 1 x 3 kernel (1, 2, 1).\<close>

definition row_store :: store where
  "row_store = example_store (1, 1, 2) (\<lambda>c y x. if x = 0 then 3 else 5) (1, 1, 2)
                 (1, 3) (\<lambda>i j. if j = 1 then 2 else 1)"



text \<open>A column of two pixels, 0 above 1, and the 3 x 3 kernel of ones.\<close>

definition column_store :: store where
  "column_store = example_store (1, 2, 1) (\<lambda>c y x. if y = 0 then 0 else 1) (1, 2, 1)
                    (3, 3) (\<lambda>i j. 1)"




text \<open>A store whose array at address 0 is one pixel of three channels, each of value 1/2.\<close>

definition grey_store :: store where
  "grey_store = example_store (3, 1, 1) (\<lambda>c y x. 1 / 2) (3, 1, 1) (1, 1) (\<lambda>i j. 1)"

text \<open>
  A store whose array at address 0 is one pixel of three channels, each of value 2, above
  the nominal range.
\<close>

definition bright_store :: store where
  "bright_store = example_store (3, 1, 1) (\<lambda>c y x. 2) (3, 1, 1) (1, 1) (\<lambda>i j. 1)"

text \<open>
  A store holding one file: an image of one row, two columns and three channels, a black
  pixel beside a white one.
\<close>

definition file_store :: store where
  "file_store =
     empty_store\<lparr>files := (files empty_store)
        (''androids.jpg'' \<mapsto> \<lparr>shape3 = (1, 2, 3), data3 = (\<lambda>y x c. if x = 0 then 0 else 255)\<rparr>)\<rparr>"



definition sample_15 :: real where
  "sample_15 = 15790321 / 2 ^ 28"



definition centre_weight_1d :: real where
  "centre_weight_1d = 13389905 / 2 ^ 25"

definition sigma_one_kernel_1d :: "int \<Rightarrow> int \<Rightarrow> real" where
  "sigma_one_kernel_1d i j =
     (let d = \<bar>j - 3\<bar> in
      if d = 0 then centre_weight_1d
      else if d = 1 then 2030347 / 2 ^ 23
      else if d = 2 then 3624253 / 2 ^ 26
      else 4759949 / 2 ^ 30)"



text \<open>One pixel, the sample of the byte 15, and the 1 x 7 kernel of \<open>sigma = 1\<close>.\<close>

definition column_rounding_store :: store where
  "column_rounding_store =
     example_store (1, 1, 1) (\<lambda>c y x. sample_15) (1, 1, 1) (1, 7) sigma_one_kernel_1d"



text \<open>A column of two pixels, 0 above 1/2, and the same kernel.\<close>

definition unit_column_store :: store where
  "unit_column_store = example_store (1, 2, 1) (\<lambda>c y x. if y = 0 then 0 else 1 / 2) (1, 2, 1)
                         (1, 3) (\<lambda>i j. if j = 1 then 1 / 2 else 1 / 4)"

section \<open>Rounding\<close>

lemma rne_error: "\<bar>of_int (rne r) - r\<bar> \<le> 1 / 2"
  unfolding rne_def Let_def by (auto; linarith)

lemma rne_of_int: "rne (of_int k) = k"
  by (simp add: rne_def)



lemma powr_2_int: "2 powr (real_of_int e) = power_int 2 e"
  by (simp add: powr_real_of_int')

lemma floor_log2:
  assumes "x \<noteq> 0"
  shows "power_int 2 \<lfloor>log 2 \<bar>x\<bar>\<rfloor> \<le> \<bar>x\<bar>" and "\<bar>x\<bar> < power_int 2 (\<lfloor>log 2 \<bar>x\<bar>\<rfloor> + 1)"
proof -
  have "0 < \<bar>x\<bar>" using assms by simp
  from floor_log_eq_powr_iff [OF this, of 2 "\<lfloor>log 2 \<bar>x\<bar>\<rfloor>"]
  have "2 powr (real_of_int \<lfloor>log 2 \<bar>x\<bar>\<rfloor>) \<le> \<bar>x\<bar> \<and> \<bar>x\<bar> < 2 powr (real_of_int (\<lfloor>log 2 \<bar>x\<bar>\<rfloor> + 1))"
    by simp
  then show "power_int 2 \<lfloor>log 2 \<bar>x\<bar>\<rfloor> \<le> \<bar>x\<bar>" and "\<bar>x\<bar> < power_int 2 (\<lfloor>log 2 \<bar>x\<bar>\<rfloor> + 1)"
    unfolding powr_2_int by blast+
qed

lemma floor_log2_eq:
  assumes "power_int 2 e \<le> \<bar>x\<bar>" "\<bar>x\<bar> < power_int 2 (e + 1)"
  shows "\<lfloor>log 2 \<bar>x\<bar>\<rfloor> = e"
proof -
  have "0 < (power_int 2 e :: real)" by simp
  with assms have "0 < \<bar>x\<bar>" by linarith
  moreover have "2 powr (real_of_int e + 1) = power_int 2 (e + 1)"
    using powr_2_int [of "e + 1"] by simp
  ultimately show ?thesis
    using floor_log_eq_powr_iff [of "\<bar>x\<bar>" 2 e] assms by (simp add: powr_2_int)
qed

lemma pow2_add: "power_int (2::real) (a + b) = power_int 2 a * power_int 2 b"
  by (simp add: power_int_add)

lemma pow2_mono: "a \<le> b \<Longrightarrow> power_int (2::real) a \<le> power_int 2 b"
  by (rule power_int_increasing) simp_all

lemma pow2_less_D: "power_int (2::real) a < power_int 2 b \<Longrightarrow> a < b"
  using pow2_mono [of b a] by (cases "a < b") simp_all


text \<open>In the normal range of a format the rounding error is relative.\<close>

lemma float_round_rel:
  assumes p: "0 < p" and x: "power_int 2 (emin + int p - 1) \<le> \<bar>x\<bar>"
  shows "\<bar>float_round p emin x - x\<bar> \<le> \<bar>x\<bar> * power_int 2 (- int p)"
proof -
  have pos: "0 < (power_int 2 (emin + int p - 1) :: real)" by simp
  with x have "0 < \<bar>x\<bar>" by linarith
  then have x0: "x \<noteq> 0" by simp
  define e where "e = \<lfloor>log 2 \<bar>x\<bar>\<rfloor>"
  have e: "power_int 2 e \<le> \<bar>x\<bar>" "\<bar>x\<bar> < power_int 2 (e + 1)"
    unfolding e_def using floor_log2 [OF x0] by simp_all
  have "power_int (2::real) (emin + int p - 1) < power_int 2 (e + 1)"
    using x e(2) by linarith
  then have "emin + int p - 1 < e + 1"
    by (rule pow2_less_D)
  then have q: "max (e - (int p - 1)) emin = e - (int p - 1)" by simp
  define q where "q = e - (int p - 1)"
  have fr: "float_round p emin x = of_int (rne (x / power_int 2 q)) * power_int 2 q"
    using x0 q by (simp add: float_round_def Let_def e_def [symmetric] q_def)
  have "\<bar>of_int (rne (x / power_int 2 q)) - x / power_int 2 q\<bar> \<le> 1 / 2"
    by (rule rne_error)
  then have "\<bar>of_int (rne (x / power_int 2 q)) - x / power_int 2 q\<bar> * power_int 2 q
      \<le> 1 / 2 * power_int 2 q"
    by (intro mult_right_mono) simp_all
  moreover have "\<bar>of_int (rne (x / power_int 2 q)) - x / power_int 2 q\<bar> * power_int 2 q
      = \<bar>float_round p emin x - x\<bar>"
  proof -
    have "(of_int (rne (x / power_int 2 q)) - x / power_int 2 q) * power_int 2 q
        = float_round p emin x - x"
      by (simp add: fr algebra_simps)
    then have "\<bar>float_round p emin x - x\<bar>
        = \<bar>(of_int (rne (x / power_int 2 q)) - x / power_int 2 q) * power_int 2 q\<bar>"
      by simp
    then show ?thesis by (simp add: abs_mult)
  qed
  moreover have "1 / 2 * power_int (2::real) q = power_int 2 e * power_int 2 (- int p)"
  proof -
    have "q = e + (- int p) + 1" by (simp add: q_def)
    then have "power_int (2::real) q = power_int 2 (e + (- int p) + 1)"
      by simp
    also have "\<dots> = power_int 2 e * power_int 2 (- int p) * 2"
      unfolding pow2_add by simp
    finally show ?thesis by simp
  qed
  moreover have "power_int 2 e * power_int 2 (- int p) \<le> \<bar>x\<bar> * power_int 2 (- int p)"
    using e(1) by (intro mult_right_mono) simp_all
  ultimately show ?thesis by linarith
qed

lemma float_round_zero: "float_round p emin 0 = 0"
  by (simp add: float_round_def)



text \<open>A value of at least the least positive number is not rounded to zero.\<close>

lemma float_round_pos:
  assumes p: "0 < p" and x: "power_int 2 emin \<le> x"
  shows "0 < float_round p emin x"
proof -
  have "0 < (power_int 2 emin :: real)" by simp
  with x have x0: "0 < x" by linarith
  define e where "e = \<lfloor>log 2 \<bar>x\<bar>\<rfloor>"
  define q where "q = max (e - (int p - 1)) emin"
  have e: "\<bar>x\<bar> < power_int 2 (e + 1)"
    unfolding e_def using floor_log2 [of x] x0 by simp
  with x x0 have "power_int (2::real) emin < power_int 2 (e + 1)" by simp
  then have "emin < e + 1" by (rule pow2_less_D)
  with p have qe: "q \<le> e" by (simp add: q_def)
  have "power_int 2 e \<le> \<bar>x\<bar>"
    unfolding e_def using floor_log2 [of x] x0 by simp
  with pow2_mono [OF qe] x0 have "power_int 2 q \<le> x" by simp
  then have "1 \<le> x / power_int 2 q"
    by (simp add: field_simps)
  with rne_error [of "x / power_int 2 q"] have "0 < (of_int (rne (x / power_int 2 q)) :: real)"
    by linarith
  moreover have "float_round p emin x = of_int (rne (x / power_int 2 q)) * power_int 2 q"
    using x0 by (simp add: float_round_def Let_def e_def q_def)
  ultimately show ?thesis
    by simp
qed

text \<open>The rounding of a given number, from its exponent.\<close>

lemma float_round_eval:
  assumes "power_int 2 e \<le> \<bar>x\<bar>" "\<bar>x\<bar> < power_int 2 (e + 1)"
    and "q = max (e - (int p - 1)) emin"
    and "rne (x / power_int 2 q) = m"
  shows "float_round p emin x = of_int m * power_int 2 q"
proof -
  have "0 < (power_int 2 e :: real)" by simp
  with assms(1) have "0 < \<bar>x\<bar>" by linarith
  then have "x \<noteq> 0" by simp
  then show ?thesis
    using floor_log2_eq [OF assms(1,2)] assms(3,4) by (simp add: float_round_def Let_def)
qed

lemma float_round_pow2:
  assumes "0 < p" "emin \<le> k"
  shows "float_round p emin (power_int 2 k) = power_int 2 k"
proof -
  define q where "q = max (k - (int p - 1)) emin"
  have qk: "q \<le> k" using assms by (simp add: q_def)
  have "power_int (2::real) k / power_int 2 q = power_int 2 (k - q)"
    by (simp add: power_int_diff)
  also have "\<dots> = of_int (2 ^ nat (k - q))"
    using qk by (simp add: power_int_def)
  finally have r: "rne (power_int 2 k / power_int 2 q) = 2 ^ nat (k - q)"
    by (simp only: rne_of_int)
  have "float_round p emin (power_int 2 k) = of_int (2 ^ nat (k - q)) * power_int 2 q"
    by (rule float_round_eval [where e = k]) (simp_all add: q_def [symmetric] r power_int_add)
  also have "\<dots> = power_int 2 (k - q) * power_int 2 q"
    using qk by (simp add: power_int_def)
  also have "\<dots> = power_int 2 k"
    by (simp flip: power_int_add)
  finally show ?thesis .
qed

lemma float32_rel:
  assumes "power_int 2 (- 126) \<le> \<bar>x\<bar>"
  shows "\<bar>float32 x - x\<bar> \<le> \<bar>x\<bar> * power_int 2 (- 24)"
  unfolding float32_def using float_round_rel [of 24 "- 149" x] assms by simp

lemma float64_rel:
  assumes "power_int 2 (- 1022) \<le> \<bar>x\<bar>"
  shows "\<bar>float64 x - x\<bar> \<le> \<bar>x\<bar> * power_int 2 (- 53)"
  unfolding float64_def using float_round_rel [of 53 "- 1074" x] assms by simp

section \<open>Array access inside the shape\<close>

lemma norm_index_in: "0 \<le> i \<Longrightarrow> i < int n \<Longrightarrow> norm_index n i = Some i"
  by (simp add: norm_index_def wrap_index_def)

lemma getitem2_in: "0 \<le> i \<Longrightarrow> 0 \<le> j \<Longrightarrow> getitem2 a i j = data2 a i j"
  by (simp add: getitem2_def wrap_index_def)

lemma getitem3_in: "0 \<le> c \<Longrightarrow> 0 \<le> v \<Longrightarrow> 0 \<le> u \<Longrightarrow> getitem3 a c v u = data3 a c v u"
  by (simp add: getitem3_def wrap_index_def)

lemma written_empty: "written s r f {} = s"
  by (simp add: written_def)

lemma heap_written_other: "r' \<noteq> r \<Longrightarrow> heap (written s r f P) r' = heap s r'"
  by (simp add: written_def)

lemma shape3_written: "shape3 (heap (written s r f P) r') = shape3 (heap s r')"
  by (simp add: written_def)

lemma kheap_written: "kheap (written s r f P) = kheap s"
  by (simp add: written_def)

lemma setitem3_written:
  assumes "0 \<le> c" "c < int (fst (shape3 (heap s r)))"
    and "0 \<le> y" "y < int (fst (snd (shape3 (heap s r))))"
    and "0 \<le> x" "x < int (snd (snd (shape3 (heap s r))))"
  shows "setitem3 (written s r f P) r c y x (f c y x) = Inr (written s r f (insert (c, y, x) P))"
proof -
  let ?F = "\<lambda>c1 y1 x1. if c1 = c \<and> y1 = y \<and> x1 = x then f c y x
            else if (c1, y1, x1) \<in> P then f c1 y1 x1 else data3 (heap s r) c1 y1 x1"
  let ?G = "\<lambda>c1 y1 x1. if (c1, y1, x1) \<in> insert (c, y, x) P then f c1 y1 x1
            else data3 (heap s r) c1 y1 x1"
  have FG: "?F = ?G"
    by (intro ext) auto
  have "setitem3 (written s r f P) r c y x (f c y x)
          = Inr (s\<lparr>heap := (heap s)(r := (heap s r)\<lparr>data3 := ?F\<rparr>)\<rparr>)"
    using assms by (simp add: setitem3_def written_def norm_index_in Let_def cong: if_cong)
  also have "\<dots> = Inr (s\<lparr>heap := (heap s)(r := (heap s r)\<lparr>data3 := ?G\<rparr>)\<rparr>)"
    by (simp only: FG)
  finally show ?thesis
    by (simp only: written_def)
qed

lemma for_each_acc:
  assumes "\<And>a acc. a \<in> set xs \<Longrightarrow> body a acc = Inr (fst acc + p a, snd acc + q a)"
  shows "for_each body xs (acc :: real \<times> real)
           = Inr (fst acc + sum_list (map p xs), snd acc + sum_list (map q xs))"
  using assms by (induction xs arbitrary: acc) (simp_all add: add.assoc)

lemma for_each_checked:
  assumes "\<And>a P. a \<in> set xs \<Longrightarrow> body a (w P) = (if ok a then Inr (w (P \<union> G a)) else Inl e)"
  shows "for_each body xs (w P)
           = (if \<forall>a\<in>set xs. ok a then Inr (w (P \<union> (\<Union>a\<in>set xs. G a))) else Inl e)"
  using assms
proof (induction xs arbitrary: P)
  case Nil
  then show ?case by simp
next
  case (Cons a xs)
  have un: "P \<union> G a \<union> (\<Union>b\<in>set xs. G b) = P \<union> (\<Union>b\<in>set (a # xs). G b)" by auto
  show ?case
  proof (cases "ok a")
    case True
    with Cons un show ?thesis by simp
  next
    case False
    with Cons.prems show ?thesis by simp
  qed
qed

lemma range2_Suc: "range2 a (b + 1) = [a..b]"
  by (simp add: range2_def)

lemma sum_list_upto: "sum_list (map f [a..b]) = sum f {a..b}"
  by (simp flip: sum_set_upto_conv_sum_list_int)

lemma window_acc:
  assumes c: "0 \<le> c" and xr: "0 \<le> x_min" and yr: "0 \<le> y_min"
    and kH: "0 \<le> y_min - y + hh" and kW: "0 \<le> x_min - x + hw"
  shows "for_each (\<lambda>u. for_each (tap_step img kern hh hw c x y u) (range2 y_min (y_max + 1)))
           (range2 x_min (x_max + 1)) (0, 0)
         = Inr (\<Sum>u = x_min..x_max. \<Sum>v = y_min..y_max.
                   data3 img c v u * data2 kern (v - y + hh) (u - x + hw),
                \<Sum>u = x_min..x_max. \<Sum>v = y_min..y_max. data2 kern (v - y + hh) (u - x + hw))"
proof -
  have tap: "tap_step img kern hh hw c x y u v acc
               = Inr (fst acc + data3 img c v u * data2 kern (v - y + hh) (u - x + hw),
                      snd acc + data2 kern (v - y + hh) (u - x + hw))"
    if "u \<in> {x_min..x_max}" "v \<in> {y_min..y_max}" for u v acc
  proof -
    have "getitem2 kern (v - y + hh) (u - x + hw) = data2 kern (v - y + hh) (u - x + hw)"
      using that kH kW by (intro getitem2_in) auto
    moreover have "getitem3 img c v u = data3 img c v u"
      using that c xr yr by (intro getitem3_in) auto
    ultimately show ?thesis by (simp add: tap_step_def Let_def)
  qed
  have inner: "for_each (tap_step img kern hh hw c x y u) (range2 y_min (y_max + 1)) acc
      = Inr (fst acc + (\<Sum>v = y_min..y_max. data3 img c v u * data2 kern (v - y + hh) (u - x + hw)),
             snd acc + (\<Sum>v = y_min..y_max. data2 kern (v - y + hh) (u - x + hw)))"
    if "u \<in> {x_min..x_max}" for u acc
    unfolding range2_Suc sum_list_upto [symmetric]
    by (rule for_each_acc) (use that tap in simp)
  have "for_each (\<lambda>u. for_each (tap_step img kern hh hw c x y u) (range2 y_min (y_max + 1)))
           (range2 x_min (x_max + 1)) (0, 0)
      = Inr (fst (0::real, 0::real) + sum_list (map (\<lambda>u. \<Sum>v = y_min..y_max.
                   data3 img c v u * data2 kern (v - y + hh) (u - x + hw)) (range2 x_min (x_max + 1))),
             snd (0::real, 0::real) + sum_list (map (\<lambda>u. \<Sum>v = y_min..y_max.
                   data2 kern (v - y + hh) (u - x + hw)) (range2 x_min (x_max + 1))))"
    by (rule for_each_acc) (use inner in \<open>simp add: range2_Suc\<close>)
  then show ?thesis by (simp add: range2_Suc sum_list_upto)
qed

lemma channel_step_checked:
  fixes s :: store and image_ref output_ref kernel_ref :: nat
  defines "img \<equiv> heap s image_ref" and "kern \<equiv> kheap s kernel_ref"
  defines "hh \<equiv> int (fst (shape2 kern)) div 2" and "hw \<equiv> int (snd (shape2 kern)) div 2"
  assumes neq: "image_ref \<noteq> output_ref"
    and le: "fst (shape3 img) \<le> fst (shape3 (heap s output_ref))"
            "fst (snd (shape3 img)) \<le> fst (snd (shape3 (heap s output_ref)))"
            "snd (snd (shape3 img)) \<le> snd (snd (shape3 (heap s output_ref)))"
    and pos: "(c, y, x) \<in> positions (shape3 img)"
  shows "channel_step image_ref output_ref kern hh hw x y
           (max 0 (x - hw)) (min (int (snd (snd (shape3 img))) - 1) (x + hw))
           (max 0 (y - hh)) (min (int (fst (snd (shape3 img))) - 1) (y + hh)) c
           (written s output_ref (out_value img kern) P)
         = (if weight_total img kern y x \<noteq> 0
            then Inr (written s output_ref (out_value img kern) (insert (c, y, x) P))
            else Inl ZeroDivisionError)"
proof -
  let ?w = "written s output_ref (out_value img kern) P"
  from pos have c: "0 \<le> c" "c < int (fst (shape3 img))"
    and y: "0 \<le> y" "y < int (fst (snd (shape3 img)))"
    and x: "0 \<le> x" "x < int (snd (snd (shape3 img)))"
    by (auto simp: positions_def)
  have img: "heap ?w image_ref = img"
    using neq by (simp add: heap_written_other img_def)
  have acc: "for_each (\<lambda>u. for_each (tap_step img kern hh hw c x y u)
                 (range2 (max 0 (y - hh)) (min (int (fst (snd (shape3 img))) - 1) (y + hh) + 1)))
           (range2 (max 0 (x - hw)) (min (int (snd (snd (shape3 img))) - 1) (x + hw) + 1)) (0, 0)
         = Inr (weighted_sum img kern c y x, weight_total img kern y x)"
    unfolding weighted_sum_def weight_total_def Let_def hh_def [symmetric] hw_def [symmetric]
    by (rule window_acc) (use c in auto)
  have "setitem3 ?w output_ref c y x (out_value img kern c y x)
          = Inr (written s output_ref (out_value img kern) (insert (c, y, x) P))"
    using c y x le by (intro setitem3_written) auto
  then show ?thesis
    by (simp add: channel_step_def img acc out_value_def)
qed

lemma set_range1: "set (range1 n) = {i. 0 \<le> i \<and> i < int n}"
  by (auto simp: range1_def)

text \<open>
  What \<open>convolve\<close> does when image and output are different arrays and the output is
  at least as large as the image: it writes the window average at every position of the
  image, unless the weights of some window sum to zero, where the division raises.
\<close>

lemma convolve_checked:
  fixes s :: store and image_ref output_ref kernel_ref :: nat
  defines "img \<equiv> heap s image_ref" and "kern \<equiv> kheap s kernel_ref"
  assumes neq: "image_ref \<noteq> output_ref"
    and le: "fst (shape3 img) \<le> fst (shape3 (heap s output_ref))"
            "fst (snd (shape3 img)) \<le> fst (snd (shape3 (heap s output_ref)))"
            "snd (snd (shape3 img)) \<le> snd (snd (shape3 (heap s output_ref)))"
  shows "convolve s image_ref output_ref kernel_ref
           = (if \<forall>(c, y, x) \<in> positions (shape3 img). weight_total img kern y x \<noteq> 0
              then Inr (written s output_ref (out_value img kern) (positions (shape3 img)))
              else Inl ZeroDivisionError)"
proof -
  define hh where "hh = int (fst (shape2 kern)) div 2"
  define hw where "hw = int (snd (shape2 kern)) div 2"
  define C where "C = fst (shape3 img)"
  define H where "H = fst (snd (shape3 img))"
  define W where "W = snd (snd (shape3 img))"
  let ?w = "written s output_ref (out_value img kern)"
  let ?ok = "\<lambda>x y. weight_total img kern y x \<noteq> 0"
  have chan: "channel_step image_ref output_ref kern hh hw x y
           (max 0 (x - hw)) (min (int W - 1) (x + hw))
           (max 0 (y - hh)) (min (int H - 1) (y + hh)) c (?w P)
         = (if ?ok x y then Inr (?w (P \<union> {(c, y, x)})) else Inl ZeroDivisionError)"
    if "(c, y, x) \<in> positions (shape3 img)" for c y x P
    using channel_step_checked [OF neq le [unfolded img_def] that [unfolded img_def],
        where P = P and kernel_ref = kernel_ref]
    by (simp add: img_def kern_def hh_def hw_def W_def H_def)
  have pixel: "pixel_step image_ref output_ref kern C H W hh hw x y (?w P)
         = (if \<forall>c\<in>set (range1 C). ?ok x y
            then Inr (?w (P \<union> (\<Union>c\<in>set (range1 C). {(c, y, x)})))
            else Inl ZeroDivisionError)"
    if "x \<in> set (range1 W)" "y \<in> set (range1 H)" for x y P
    unfolding pixel_step_def Let_def
  proof (rule for_each_checked)
    fix c Q
    assume "c \<in> set (range1 C)"
    with that have "(c, y, x) \<in> positions (shape3 img)"
      by (simp add: set_range1 positions_def C_def H_def W_def)
    then show "channel_step image_ref output_ref kern hh hw x y
           (max 0 (x - hw)) (min (int W - 1) (x + hw))
           (max 0 (y - hh)) (min (int H - 1) (y + hh)) c (?w Q)
         = (if ?ok x y then Inr (?w (Q \<union> {(c, y, x)})) else Inl ZeroDivisionError)"
      by (rule chan)
  qed
  have row: "for_each (pixel_step image_ref output_ref kern C H W hh hw x) (range1 H) (?w P)
         = (if \<forall>y\<in>set (range1 H). \<forall>c\<in>set (range1 C). ?ok x y
            then Inr (?w (P \<union> (\<Union>y\<in>set (range1 H). \<Union>c\<in>set (range1 C). {(c, y, x)})))
            else Inl ZeroDivisionError)"
    if "x \<in> set (range1 W)" for x P
    by (rule for_each_checked) (use that pixel in simp)
  have all: "for_each (\<lambda>x. for_each (pixel_step image_ref output_ref kern C H W hh hw x) (range1 H))
            (range1 W) (?w {})
         = (if \<forall>x\<in>set (range1 W). \<forall>y\<in>set (range1 H). \<forall>c\<in>set (range1 C). ?ok x y
            then Inr (?w ({} \<union> (\<Union>x\<in>set (range1 W). \<Union>y\<in>set (range1 H).
                                 \<Union>c\<in>set (range1 C). {(c, y, x)})))
            else Inl ZeroDivisionError)"
    by (rule for_each_checked) (use row in simp)
  have set: "{} \<union> (\<Union>x\<in>set (range1 W). \<Union>y\<in>set (range1 H). \<Union>c\<in>set (range1 C). {(c, y, x)})
      = positions (shape3 img)"
    by (auto simp: set_range1 positions_def C_def H_def W_def)
  have ok: "(\<forall>x\<in>set (range1 W). \<forall>y\<in>set (range1 H). \<forall>c\<in>set (range1 C). ?ok x y)
      \<longleftrightarrow> (\<forall>(c, y, x) \<in> positions (shape3 img). ?ok x y)"
    by (auto simp: set_range1 positions_def C_def H_def W_def)
  have "convolve s image_ref output_ref kernel_ref
      = for_each (\<lambda>x. for_each (pixel_step image_ref output_ref kern C H W hh hw x) (range1 H))
            (range1 W) (?w {})"
    by (simp add: convolve_def Let_def written_empty img_def [symmetric] kern_def [symmetric]
        hh_def W_def H_def C_def hw_def)
  then show ?thesis
    unfolding all set ok .
qed

lemma convolve_written:
  fixes s :: store and image_ref output_ref kernel_ref :: nat
  defines "img \<equiv> heap s image_ref" and "kern \<equiv> kheap s kernel_ref"
  assumes neq: "image_ref \<noteq> output_ref"
    and le: "fst (shape3 img) \<le> fst (shape3 (heap s output_ref))"
            "fst (snd (shape3 img)) \<le> fst (snd (shape3 (heap s output_ref)))"
            "snd (snd (shape3 img)) \<le> snd (snd (shape3 (heap s output_ref)))"
    and nz: "\<And>c y x. (c, y, x) \<in> positions (shape3 img) \<Longrightarrow> weight_total img kern y x \<noteq> 0"
  shows "convolve s image_ref output_ref kernel_ref
           = Inr (written s output_ref (out_value img kern) (positions (shape3 img)))"
proof -
  have "\<forall>(c, y, x) \<in> positions (shape3 img). weight_total img kern y x \<noteq> 0"
    using nz by auto
  with convolve_checked [OF neq le [unfolded img_def]]
  show ?thesis
    by (simp add: img_def kern_def)
qed

lemma int_interval_01: "{0..1::int} = {0, 1}" by auto

lemma data3_written:
  "data3 (heap (written s r f P) r) c y x = (if (c, y, x) \<in> P then f c y x else data3 (heap s r) c y x)"
  by (simp add: written_def)

section \<open>The value written at each position\<close>




section \<open>Sums over the clamped window\<close>

lemma weighted_sum_window:
  "weighted_sum img kern c y x
     = (\<Sum>(u, v) \<in> window img kern y x.
          data3 img c v u * data2 kern (v - y + int (fst (shape2 kern)) div 2)
                                       (u - x + int (snd (shape2 kern)) div 2))"
  by (simp add: weighted_sum_def window_def Let_def sum.cartesian_product)

lemma weight_total_window:
  "weight_total img kern y x
     = (\<Sum>(u, v) \<in> window img kern y x.
          data2 kern (v - y + int (fst (shape2 kern)) div 2)
                     (u - x + int (snd (shape2 kern)) div 2))"
  by (simp add: weight_total_def window_def Let_def sum.cartesian_product)

lemma finite_window: "finite (window img kern y x)"
  by (simp add: window_def Let_def)

lemma centre_in_window:
  assumes "(c, y, x) \<in> positions (shape3 img)"
  shows "(x, y) \<in> window img kern y x"
  using assms by (auto simp: window_def positions_def Let_def)


lemma window_tap_in_kernel:
  assumes "(c, y, x) \<in> positions (shape3 img)" and "(u, v) \<in> window img kern y x"
    and "odd (fst (shape2 kern))" and "odd (snd (shape2 kern))"
  shows "0 \<le> v - y + int (fst (shape2 kern)) div 2
       \<and> v - y + int (fst (shape2 kern)) div 2 < int (fst (shape2 kern))
       \<and> 0 \<le> u - x + int (snd (shape2 kern)) div 2
       \<and> u - x + int (snd (shape2 kern)) div 2 < int (snd (shape2 kern))"
proof -
  from assms(1) have y: "0 \<le> y" "y < int (fst (snd (shape3 img)))"
    and x: "0 \<le> x" "x < int (snd (snd (shape3 img)))"
    by (auto simp: positions_def)
  from assms(2) have v: "y - int (fst (shape2 kern)) div 2 \<le> v"
      "v \<le> min (int (fst (snd (shape3 img))) - 1) (y + int (fst (shape2 kern)) div 2)"
    and u: "x - int (snd (shape2 kern)) div 2 \<le> u"
      "u \<le> min (int (snd (snd (shape3 img))) - 1) (x + int (snd (shape2 kern)) div 2)"
    by (auto simp: window_def Let_def)
  have "2 * (int (fst (shape2 kern)) div 2) = int (fst (shape2 kern)) - 1"
    "2 * (int (snd (shape2 kern)) div 2) = int (snd (shape2 kern)) - 1"
    using assms(3,4) by presburger+
  with y x v u show ?thesis
    by linarith
qed

text \<open>
  Non-negative weights with a positive centre weight give a positive total at every
  position: the centre tap is always inside the window.
\<close>


lemma weight_total_pos:
  assumes pos: "(c, y, x) \<in> positions (shape3 img)"
    and odd: "odd (fst (shape2 kern))" "odd (snd (shape2 kern))"
    and nonneg: "\<And>i j. 0 \<le> i \<Longrightarrow> i < int (fst (shape2 kern)) \<Longrightarrow> 0 \<le> j
                   \<Longrightarrow> j < int (snd (shape2 kern)) \<Longrightarrow> 0 \<le> data2 kern i j"
    and centre: "0 < data2 kern (int (fst (shape2 kern)) div 2) (int (snd (shape2 kern)) div 2)"
  shows "0 < weight_total img kern y x"
  unfolding weight_total_window
proof (rule sum_pos2 [OF finite_window centre_in_window [OF pos]])
  show "0 < (case (x, y) of (u, v) \<Rightarrow>
           data2 kern (v - y + int (fst (shape2 kern)) div 2)
                      (u - x + int (snd (shape2 kern)) div 2))"
    using centre by simp
next
  fix p assume p: "p \<in> window img kern y x"
  obtain u v where uv: "p = (u, v)" by (cases p)
  from window_tap_in_kernel [OF pos p [unfolded uv] odd] nonneg
  show "0 \<le> (case p of (u, v) \<Rightarrow>
           data2 kern (v - y + int (fst (shape2 kern)) div 2)
                      (u - x + int (snd (shape2 kern)) div 2))"
    by (simp add: uv)
qed



section \<open>The rounded loops\<close>

lemma for_each_foldl:
  assumes "\<And>a acc. a \<in> set xs \<Longrightarrow> body a acc = Inr (f acc a)"
  shows "for_each body xs acc = Inr (foldl f acc xs)"
  using assms by (induction xs arbitrary: acc) simp_all

lemma foldl_product:
  "foldl (\<lambda>acc (u, v). f acc u v) acc (List.product us vs)
     = foldl (\<lambda>acc u. foldl (\<lambda>acc v. f acc u v) acc vs) acc us"
  by (induction us arbitrary: acc) (simp_all add: foldl_map)

lemma window_acc_rounded:
  assumes c: "0 \<le> c" and xr: "0 \<le> x_min" and yr: "0 \<le> y_min"
    and kH: "0 \<le> y_min - y + hh" and kW: "0 \<le> x_min - x + hw"
  shows "for_each (\<lambda>u. for_each (tap_step_rounded img kern hh hw c x y u)
                          (range2 y_min (y_max + 1)))
           (range2 x_min (x_max + 1)) (0, 0)
         = Inr (rounded_sums
                  (map (\<lambda>(u, v). (data3 img c v u, data2 kern (v - y + hh) (u - x + hw)))
                     (List.product [x_min..x_max] [y_min..y_max])))"
proof -
  define step :: "real \<times> real \<Rightarrow> int \<Rightarrow> int \<Rightarrow> real \<times> real" where
    "step = (\<lambda>acc u v.
       (float64 (fst acc + float32 (data3 img c v u * data2 kern (v - y + hh) (u - x + hw))),
        float64 (snd acc + data2 kern (v - y + hh) (u - x + hw))))"
  have tap: "tap_step_rounded img kern hh hw c x y u v acc = Inr (step acc u v)"
    if "u \<in> {x_min..x_max}" "v \<in> {y_min..y_max}" for u v acc
  proof -
    have "getitem2 kern (v - y + hh) (u - x + hw) = data2 kern (v - y + hh) (u - x + hw)"
      using that kH kW by (intro getitem2_in) auto
    moreover have "getitem3 img c v u = data3 img c v u"
      using that c xr yr by (intro getitem3_in) auto
    ultimately show ?thesis by (simp add: tap_step_rounded_def Let_def step_def)
  qed
  have inner: "for_each (tap_step_rounded img kern hh hw c x y u) (range2 y_min (y_max + 1)) acc
      = Inr (foldl (\<lambda>acc v. step acc u v) acc [y_min..y_max])"
    if "u \<in> {x_min..x_max}" for u acc
    unfolding range2_Suc by (rule for_each_foldl) (use that tap in simp)
  have "for_each (\<lambda>u. for_each (tap_step_rounded img kern hh hw c x y u)
                          (range2 y_min (y_max + 1)))
           (range2 x_min (x_max + 1)) (0, 0)
      = Inr (foldl (\<lambda>acc u. foldl (\<lambda>acc v. step acc u v) acc [y_min..y_max]) (0, 0)
               [x_min..x_max])"
    unfolding range2_Suc by (rule for_each_foldl) (use inner in \<open>simp add: range2_Suc\<close>)
  also have "foldl (\<lambda>acc u. foldl (\<lambda>acc v. step acc u v) acc [y_min..y_max]) (0, 0)
               [x_min..x_max]
      = rounded_sums
          (map (\<lambda>(u, v). (data3 img c v u, data2 kern (v - y + hh) (u - x + hw)))
             (List.product [x_min..x_max] [y_min..y_max]))"
    unfolding rounded_sums_def foldl_map foldl_product [symmetric]
    by (rule arg_cong [where f = "\<lambda>f. foldl f (0, 0) (List.product [x_min..x_max] [y_min..y_max])"])
      (simp add: step_def fun_eq_iff)
  finally show ?thesis .
qed

lemma channel_step_rounded_checked:
  fixes s :: store and image_ref output_ref kernel_ref :: nat
  defines "img \<equiv> heap s image_ref" and "kern \<equiv> kheap s kernel_ref"
  defines "hh \<equiv> int (fst (shape2 kern)) div 2" and "hw \<equiv> int (snd (shape2 kern)) div 2"
  assumes neq: "image_ref \<noteq> output_ref"
    and le: "fst (shape3 img) \<le> fst (shape3 (heap s output_ref))"
            "fst (snd (shape3 img)) \<le> fst (snd (shape3 (heap s output_ref)))"
            "snd (snd (shape3 img)) \<le> snd (snd (shape3 (heap s output_ref)))"
    and pos: "(c, y, x) \<in> positions (shape3 img)"
  shows "channel_step_rounded image_ref output_ref kern hh hw x y
           (max 0 (x - hw)) (min (int (snd (snd (shape3 img))) - 1) (x + hw))
           (max 0 (y - hh)) (min (int (fst (snd (shape3 img))) - 1) (y + hh)) c
           (written s output_ref (out_value_rounded img kern) P)
         = (if snd (rounded_sums (window_taps img kern c y x)) \<noteq> 0
            then Inr (written s output_ref (out_value_rounded img kern) (insert (c, y, x) P))
            else Inl ZeroDivisionError)"
proof -
  let ?w = "written s output_ref (out_value_rounded img kern) P"
  from pos have c: "0 \<le> c" "c < int (fst (shape3 img))"
    and y: "0 \<le> y" "y < int (fst (snd (shape3 img)))"
    and x: "0 \<le> x" "x < int (snd (snd (shape3 img)))"
    by (auto simp: positions_def)
  have img: "heap ?w image_ref = img"
    using neq by (simp add: heap_written_other img_def)
  have acc: "for_each (\<lambda>u. for_each (tap_step_rounded img kern hh hw c x y u)
                 (range2 (max 0 (y - hh)) (min (int (fst (snd (shape3 img))) - 1) (y + hh) + 1)))
           (range2 (max 0 (x - hw)) (min (int (snd (snd (shape3 img))) - 1) (x + hw) + 1)) (0, 0)
         = Inr (rounded_sums (window_taps img kern c y x))"
    unfolding window_taps_def Let_def hh_def [symmetric] hw_def [symmetric]
    by (rule window_acc_rounded) (use c in auto)
  have "setitem3 ?w output_ref c y x (out_value_rounded img kern c y x)
          = Inr (written s output_ref (out_value_rounded img kern) (insert (c, y, x) P))"
    using c y x le by (intro setitem3_written) auto
  then show ?thesis
    by (simp add: channel_step_rounded_def img acc out_value_rounded_def rounded_quotient_def
        case_prod_unfold)
qed

text \<open>
  What the rounded \<open>convolve\<close> does when image and output are different arrays and the
  output is at least as large as the image: it writes the rounded quotient of the
  rounded sums at every position of the image, unless the rounded total of some window
  is zero, where the division raises.
\<close>

lemma convolve_rounded_checked:
  fixes s :: store and image_ref output_ref kernel_ref :: nat
  defines "img \<equiv> heap s image_ref" and "kern \<equiv> kheap s kernel_ref"
  assumes neq: "image_ref \<noteq> output_ref"
    and le: "fst (shape3 img) \<le> fst (shape3 (heap s output_ref))"
            "fst (snd (shape3 img)) \<le> fst (snd (shape3 (heap s output_ref)))"
            "snd (snd (shape3 img)) \<le> snd (snd (shape3 (heap s output_ref)))"
  shows "convolve_rounded s image_ref output_ref kernel_ref
           = (if \<forall>(c, y, x) \<in> positions (shape3 img).
                   snd (rounded_sums (window_taps img kern c y x)) \<noteq> 0
              then Inr (written s output_ref (out_value_rounded img kern) (positions (shape3 img)))
              else Inl ZeroDivisionError)"
proof -
  define hh where "hh = int (fst (shape2 kern)) div 2"
  define hw where "hw = int (snd (shape2 kern)) div 2"
  define C where "C = fst (shape3 img)"
  define H where "H = fst (snd (shape3 img))"
  define W where "W = snd (snd (shape3 img))"
  let ?w = "written s output_ref (out_value_rounded img kern)"
  let ?ok = "\<lambda>x y c. snd (rounded_sums (window_taps img kern c y x)) \<noteq> 0"
  have chan: "channel_step_rounded image_ref output_ref kern hh hw x y
           (max 0 (x - hw)) (min (int W - 1) (x + hw))
           (max 0 (y - hh)) (min (int H - 1) (y + hh)) c (?w P)
         = (if ?ok x y c then Inr (?w (P \<union> {(c, y, x)})) else Inl ZeroDivisionError)"
    if "(c, y, x) \<in> positions (shape3 img)" for c y x P
    using channel_step_rounded_checked [OF neq le [unfolded img_def] that [unfolded img_def],
        where P = P and kernel_ref = kernel_ref]
    by (simp add: img_def kern_def hh_def hw_def W_def H_def)
  have pixel: "pixel_step_rounded image_ref output_ref kern C H W hh hw x y (?w P)
         = (if \<forall>c\<in>set (range1 C). ?ok x y c
            then Inr (?w (P \<union> (\<Union>c\<in>set (range1 C). {(c, y, x)})))
            else Inl ZeroDivisionError)"
    if "x \<in> set (range1 W)" "y \<in> set (range1 H)" for x y P
    unfolding pixel_step_rounded_def Let_def
  proof (rule for_each_checked)
    fix c Q
    assume "c \<in> set (range1 C)"
    with that have "(c, y, x) \<in> positions (shape3 img)"
      by (simp add: set_range1 positions_def C_def H_def W_def)
    then show "channel_step_rounded image_ref output_ref kern hh hw x y
           (max 0 (x - hw)) (min (int W - 1) (x + hw))
           (max 0 (y - hh)) (min (int H - 1) (y + hh)) c (?w Q)
         = (if ?ok x y c then Inr (?w (Q \<union> {(c, y, x)})) else Inl ZeroDivisionError)"
      by (rule chan)
  qed
  have row: "for_each (pixel_step_rounded image_ref output_ref kern C H W hh hw x) (range1 H) (?w P)
         = (if \<forall>y\<in>set (range1 H). \<forall>c\<in>set (range1 C). ?ok x y c
            then Inr (?w (P \<union> (\<Union>y\<in>set (range1 H). \<Union>c\<in>set (range1 C). {(c, y, x)})))
            else Inl ZeroDivisionError)"
    if "x \<in> set (range1 W)" for x P
    by (rule for_each_checked) (use that pixel in simp)
  have all: "for_each (\<lambda>x. for_each (pixel_step_rounded image_ref output_ref kern C H W hh hw x)
                              (range1 H))
            (range1 W) (?w {})
         = (if \<forall>x\<in>set (range1 W). \<forall>y\<in>set (range1 H). \<forall>c\<in>set (range1 C). ?ok x y c
            then Inr (?w ({} \<union> (\<Union>x\<in>set (range1 W). \<Union>y\<in>set (range1 H).
                                 \<Union>c\<in>set (range1 C). {(c, y, x)})))
            else Inl ZeroDivisionError)"
    by (rule for_each_checked) (use row in simp)
  have set: "{} \<union> (\<Union>x\<in>set (range1 W). \<Union>y\<in>set (range1 H). \<Union>c\<in>set (range1 C). {(c, y, x)})
      = positions (shape3 img)"
    by (auto simp: set_range1 positions_def C_def H_def W_def)
  have ok: "(\<forall>x\<in>set (range1 W). \<forall>y\<in>set (range1 H). \<forall>c\<in>set (range1 C). ?ok x y c)
      \<longleftrightarrow> (\<forall>(c, y, x) \<in> positions (shape3 img). ?ok x y c)"
    by (auto simp: set_range1 positions_def C_def H_def W_def)
  have "convolve_rounded s image_ref output_ref kernel_ref
      = for_each (\<lambda>x. for_each (pixel_step_rounded image_ref output_ref kern C H W hh hw x)
                          (range1 H))
            (range1 W) (?w {})"
    by (simp add: convolve_rounded_def Let_def written_empty img_def [symmetric]
        kern_def [symmetric] hh_def W_def H_def C_def hw_def)
  then show ?thesis
    unfolding all set ok .
qed

section \<open>The error of the rounded sums\<close>

lemma rounded_sums_split:
  "rounded_sums taps
     = (float64_sum (map (\<lambda>(px, w). float32 (px * w)) taps), float64_sum (map snd taps))"
proof -
  have "foldl (\<lambda>acc (px, w). (float64 (fst acc + float32 (px * w)), float64 (snd acc + w)))
          (a, b) taps
      = (foldl (\<lambda>acc z. float64 (acc + z)) a (map (\<lambda>(px, w). float32 (px * w)) taps),
         foldl (\<lambda>acc z. float64 (acc + z)) b (map snd taps))" for a b
    by (induction taps arbitrary: a b) (simp_all add: case_prod_unfold)
  then show ?thesis
    by (simp add: rounded_sums_def float64_sum_def)
qed

lemma float64_sum_snoc: "float64_sum (zs @ [z]) = float64 (float64_sum zs + z)"
  by (simp add: float64_sum_def)

lemma sum_list_zero_or_ge:
  fixes zs :: "real list"
  assumes "\<And>z. z \<in> set zs \<Longrightarrow> z = 0 \<or> m \<le> z" and "0 \<le> m"
  shows "0 \<le> sum_list zs \<and> (sum_list zs = 0 \<or> m \<le> sum_list zs)"
  using assms(1)
proof (induction zs)
  case Nil
  then show ?case by simp
next
  case (Cons z zs)
  then have IH: "0 \<le> sum_list zs" "sum_list zs = 0 \<or> m \<le> sum_list zs"
    and z: "z = 0 \<or> m \<le> z"
    by simp_all
  with assms(2) show ?case by auto
qed

text \<open>
  One more term: the bounds on the rounded sum of \<open>n\<close> terms give the bounds on the
  rounded sum of \<open>n + 1\<close> terms.
\<close>

lemma rounded_add_bounds:
  fixes S A z f u n :: real
  assumes S: "0 \<le> S" and z: "0 \<le> z" and u: "0 \<le> u" "u \<le> 1" and n: "0 \<le> n" "2 * n * u \<le> 1"
    and lo: "S * (1 - n * u) \<le> A" and hi: "A \<le> S * (1 + 2 * n * u)"
    and flo: "(A + z) * (1 - u) \<le> f" and fhi: "f \<le> (A + z) * (1 + u)"
  shows "(S + z) * (1 - (n + 1) * u) \<le> f" and "f \<le> (S + z) * (1 + 2 * (n + 1) * u)"
proof -
  have nu: "0 \<le> n * u" using n u by simp
  have "(S + z) * (1 + 2 * (n + 1) * u) - (S * (1 + 2 * n * u) + z) * (1 + u)
      = S * (u * (1 - 2 * n * u)) + z * (u + 2 * n * u)"
    by (simp add: algebra_simps)
  moreover have "0 \<le> S * (u * (1 - 2 * n * u))"
    using S u n by (intro mult_nonneg_nonneg) simp_all
  moreover have "0 \<le> z * (u + 2 * n * u)"
    using z u nu by (intro mult_nonneg_nonneg) simp_all
  ultimately have "(S * (1 + 2 * n * u) + z) * (1 + u) \<le> (S + z) * (1 + 2 * (n + 1) * u)"
    by linarith
  moreover have "(A + z) * (1 + u) \<le> (S * (1 + 2 * n * u) + z) * (1 + u)"
    using hi u by (intro mult_right_mono) simp_all
  ultimately show "f \<le> (S + z) * (1 + 2 * (n + 1) * u)"
    using fhi by linarith
  have "(S * (1 - n * u) + z) * (1 - u) - (S + z) * (1 - (n + 1) * u)
      = S * (n * u * u) + z * (n * u)"
    by (simp add: algebra_simps)
  moreover have "0 \<le> S * (n * u * u)"
    using S u n by (intro mult_nonneg_nonneg) simp_all
  moreover have "0 \<le> z * (n * u)"
    using z u n by (intro mult_nonneg_nonneg) simp_all
  ultimately have "(S + z) * (1 - (n + 1) * u) \<le> (S * (1 - n * u) + z) * (1 - u)"
    by linarith
  moreover have "(S * (1 - n * u) + z) * (1 - u) \<le> (A + z) * (1 - u)"
    using lo u by (intro mult_right_mono) simp_all
  ultimately show "(S + z) * (1 - (n + 1) * u) \<le> f"
    using flo by linarith
qed

text \<open>
  The \<open>float64\<close> sum of at most \<open>2^52\<close> terms, each zero or at least \<open>m\<close>, a
  number of the normal range: its relative error grows by one unit roundoff per term.
\<close>

lemma float64_sum_bounds:
  fixes zs :: "real list"
  assumes zs: "\<And>z. z \<in> set zs \<Longrightarrow> z = 0 \<or> m \<le> z"
    and m: "1 / 2 ^ 1021 \<le> m"
    and len: "length zs \<le> 2 ^ 52"
  shows "sum_list zs * (1 - real (length zs) / 2 ^ 53) \<le> float64_sum zs"
    and "float64_sum zs \<le> sum_list zs * (1 + 2 * real (length zs) / 2 ^ 53)"
proof -
  define u :: real where "u = 1 / 2 ^ 53"
  have u: "0 \<le> u" "u \<le> 1" by (simp_all add: u_def)
  have m0: "0 \<le> m" using m by (rule order_trans [rotated]) simp
  have rel: "x * (1 - u) \<le> float64 x \<and> float64 x \<le> x * (1 + u)" if "1 / 2 ^ 1022 \<le> x" for x
  proof -
    have x: "0 \<le> x" using that by (rule order_trans [rotated]) simp
    have "power_int 2 (- 1022) \<le> \<bar>x\<bar>"
      using that x by (simp add: power_int_minus field_simps)
    from float64_rel [OF this] x have "\<bar>float64 x - x\<bar> \<le> x * u"
      by (simp add: u_def power_int_minus field_simps)
    then show ?thesis
      by (simp add: algebra_simps abs_le_iff)
  qed
  have "sum_list zs * (1 - real (length zs) * u) \<le> float64_sum zs
      \<and> float64_sum zs \<le> sum_list zs * (1 + 2 * real (length zs) * u)"
    using zs len
  proof (induction zs rule: rev_induct)
    case Nil
    then show ?case by (simp add: float64_sum_def)
  next
    case (snoc z zs)
    define S where "S = sum_list zs"
    define A where "A = float64_sum zs"
    define n where "n = real (length zs)"
    have zs': "\<And>z. z \<in> set zs \<Longrightarrow> z = 0 \<or> m \<le> z" using snoc.prems(1) by simp
    have z: "z = 0 \<or> m \<le> z" using snoc.prems(1) by simp
    then have z0: "0 \<le> z" using m0 by auto
    have "length zs \<le> 2 ^ 52" using snoc.prems(2) by simp
    with snoc.IH [OF zs'] have IH: "S * (1 - n * u) \<le> A" "A \<le> S * (1 + 2 * n * u)"
      by (simp_all add: S_def A_def n_def)
    from sum_list_zero_or_ge [OF zs' m0] have S: "0 \<le> S" "S = 0 \<or> m \<le> S"
      by (simp_all add: S_def)
    have "n + 1 \<le> 2 ^ 52"
      using snoc.prems(2) by (simp add: n_def) 
    then have n: "0 \<le> n" "n \<le> 2 ^ 52" by (simp_all add: n_def)
    then have "2 * n * u \<le> 2 * 2 ^ 52 * u"
      using u by (intro mult_right_mono mult_left_mono) simp_all
    then have nu: "2 * n * u \<le> 1" by (simp add: u_def)
    then have half: "1 / 2 \<le> 1 - n * u" by simp
    have A0: "0 \<le> A"
    proof -
      have "0 \<le> S * (1 - n * u)" using S(1) half by (intro mult_nonneg_nonneg) simp_all
      with IH(1) show ?thesis by simp
    qed
    have f: "float64_sum (zs @ [z]) = float64 (A + z)"
      by (simp add: float64_sum_snoc A_def)
    have goal: "(S + z) * (1 - (n + 1) * u) \<le> float64 (A + z)
        \<and> float64 (A + z) \<le> (S + z) * (1 + 2 * (n + 1) * u)"
    proof (cases "A + z = 0")
      case True
      with A0 z0 have "A = 0" "z = 0" by simp_all
      moreover have "S * (1 / 2) \<le> S * (1 - n * u)"
        using S(1) half by (intro mult_left_mono) simp_all
      ultimately have "S = 0" using IH(1) S(1) by simp
      with \<open>A = 0\<close> \<open>z = 0\<close> show ?thesis
        by (simp add: float64_def float_round_zero)
    next
      case False
      have "1 / 2 ^ 1022 \<le> A + z"
      proof (cases "z = 0")
        case True
        with False A0 have "0 < A" by simp
        with IH(2) have "S \<noteq> 0" by auto
        with S(2) have "m \<le> S" by simp
        then have "m * (1 / 2) \<le> S * (1 - n * u)"
          using half m0 by (intro mult_mono) simp_all
        with IH(1) have "m / 2 \<le> A" by simp
        moreover have "1 / 2 ^ 1022 \<le> m / 2" using m by simp
        ultimately show ?thesis using True by simp
      next
        case False
        with z have "m \<le> z" by simp
        moreover have "(1 / 2 ^ 1022 :: real) \<le> 1 / 2 ^ 1021" by simp
        ultimately show ?thesis using m A0 by linarith
      qed
      from rel [OF this] have r: "(A + z) * (1 - u) \<le> float64 (A + z)"
        "float64 (A + z) \<le> (A + z) * (1 + u)"
        by simp_all
      from rounded_add_bounds [OF S(1) z0 u n(1) nu IH r] show ?thesis
        by simp
    qed
    have "real (length (zs @ [z])) = n + 1" by (simp add: n_def)
    moreover have "sum_list (zs @ [z]) = S + z" by (simp add: S_def)
    ultimately show ?case
      using goal by (simp only: f)
  qed
  then show "sum_list zs * (1 - real (length zs) / 2 ^ 53) \<le> float64_sum zs"
    and "float64_sum zs \<le> sum_list zs * (1 + 2 * real (length zs) / 2 ^ 53)"
    by (simp_all add: u_def)
qed

lemma float64_rel_pos:
  assumes "1 / 2 ^ 1022 \<le> x"
  shows "x * (1 - 1 / 2 ^ 53) \<le> float64 x" and "float64 x \<le> x * (1 + 1 / 2 ^ 53)"
proof -
  define u :: real where "u = 1 / 2 ^ 53"
  have x: "0 \<le> x" using assms by (rule order_trans [rotated]) simp
  have "power_int 2 (- 1022) \<le> \<bar>x\<bar>"
    using assms x by (simp add: power_int_minus field_simps)
  from float64_rel [OF this] x have "\<bar>float64 x - x\<bar> \<le> x * u"
    by (simp add: u_def power_int_minus field_simps)
  then have "x - x * u \<le> float64 x" "float64 x \<le> x + x * u"
    by linarith+
  then show "x * (1 - 1 / 2 ^ 53) \<le> float64 x" and "float64 x \<le> x * (1 + 1 / 2 ^ 53)"
    unfolding u_def [symmetric] by (simp_all add: algebra_simps)
qed

lemma float32_rel_pos:
  assumes "1 / 2 ^ 126 \<le> x"
  shows "x * (1 - 1 / 2 ^ 24) \<le> float32 x" and "float32 x \<le> x * (1 + 1 / 2 ^ 24)"
proof -
  define a :: real where "a = 1 / 2 ^ 24"
  have x: "0 \<le> x" using assms by (rule order_trans [rotated]) simp
  have "power_int 2 (- 126) \<le> \<bar>x\<bar>"
    using assms x by (simp add: power_int_minus field_simps)
  from float32_rel [OF this] x have "\<bar>float32 x - x\<bar> \<le> x * a"
    by (simp add: a_def power_int_minus field_simps)
  then have "x - x * a \<le> float32 x" "float32 x \<le> x + x * a"
    by linarith+
  then show "x * (1 - 1 / 2 ^ 24) \<le> float32 x" and "float32 x \<le> x * (1 + 1 / 2 ^ 24)"
    unfolding a_def [symmetric] by (simp_all add: algebra_simps)
qed

text \<open>
  The roundings of one output value, put together: two of \<open>float32\<close>, one of
  \<open>float64\<close> and the sums, whose error is \<open>t\<close>, stay within \<open>2^-22\<close>.
\<close>

lemma slack_upper:
  fixes t :: real
  assumes "0 \<le> t" "t \<le> 1 / 2 ^ 33"
  shows "(1 + 1 / 2 ^ 24) * (1 + 1 / 2 ^ 24) * (1 + 1 / 2 ^ 53) * (1 + 2 * t)
           \<le> (1 + 1 / 2 ^ 22) * (1 - t)"
proof -
  have "(1 + 1 / 2 ^ 24) * (1 + 1 / 2 ^ 24) * (1 + 1 / 2 ^ 53) * (1 + 2 * t)
      \<le> (1 + 1 / 2 ^ 24) * (1 + 1 / 2 ^ 24) * (1 + 1 / 2 ^ 53) * (1 + 2 * (1 / 2 ^ 33))"
    using assms by (intro mult_left_mono) simp_all
  also have "\<dots> \<le> (1 + 1 / 2 ^ 22) * (1 - 1 / 2 ^ 33)"
    by simp
  also have "\<dots> \<le> (1 + 1 / 2 ^ 22) * (1 - t)"
    using assms by (intro mult_left_mono) simp_all
  finally show ?thesis .
qed

lemma slack_lower:
  fixes t :: real
  assumes "0 \<le> t" "t \<le> 1 / 2 ^ 33"
  shows "(1 - 1 / 2 ^ 22) * (1 + 2 * t)
           \<le> (1 - 1 / 2 ^ 24) * (1 - 1 / 2 ^ 24) * (1 - 1 / 2 ^ 53) * (1 - t)"
proof -
  have "(1 - 1 / 2 ^ 22) * (1 + 2 * t) \<le> (1 - 1 / 2 ^ 22) * (1 + 2 * (1 / 2 ^ 33))"
    using assms by (intro mult_left_mono) simp_all
  also have "\<dots> \<le> (1 - 1 / 2 ^ 24) * (1 - 1 / 2 ^ 24) * (1 - 1 / 2 ^ 53) * (1 - 1 / 2 ^ 33)"
    by simp
  also have "\<dots> \<le> (1 - 1 / 2 ^ 24) * (1 - 1 / 2 ^ 24) * (1 - 1 / 2 ^ 53) * (1 - t)"
    using assms by (intro mult_left_mono) simp_all
  finally show ?thesis .
qed

lemma float32_product_bounds:
  assumes px: "px = 0 \<or> 1 / 2 ^ 40 \<le> px" and w: "w = 0 \<or> 1 / 2 ^ 60 \<le> w"
  shows "px * w * (1 - 1 / 2 ^ 24) \<le> float32 (px * w)"
    and "float32 (px * w) \<le> px * w * (1 + 1 / 2 ^ 24)"
    and "float32 (px * w) = 0 \<or> 1 / 2 ^ 101 \<le> float32 (px * w)"
proof -
  define x where "x = px * w"
  have "x * (1 - 1 / 2 ^ 24) \<le> float32 x \<and> float32 x \<le> x * (1 + 1 / 2 ^ 24)
      \<and> (float32 x = 0 \<or> 1 / 2 ^ 101 \<le> float32 x)"
  proof (cases "px = 0 \<or> w = 0")
    case True
    then have "x = 0" by (auto simp: x_def)
    then show ?thesis by (simp add: float32_def float_round_zero)
  next
    case False
    with px w have "1 / 2 ^ 40 \<le> px" "1 / 2 ^ 60 \<le> w" by simp_all
    then have "(1 / 2 ^ 40) * (1 / 2 ^ 60) \<le> px * w"
      by (intro mult_mono) simp_all
    then have x: "1 / 2 ^ 100 \<le> x" by (simp add: x_def)
    then have "1 / 2 ^ 126 \<le> x" by (rule order_trans [rotated]) simp
    note r = float32_rel_pos [OF this]
    have "(1 / 2 ^ 100) * (1 - 1 / 2 ^ 24) \<le> x * (1 - 1 / 2 ^ 24)"
      using x by (intro mult_right_mono) simp_all
    moreover have "(1 / 2 ^ 101 :: real) \<le> (1 / 2 ^ 100) * (1 - 1 / 2 ^ 24)" by simp
    ultimately have "1 / 2 ^ 101 \<le> float32 x"
      using r(1) by linarith
    with r show ?thesis by blast
  qed
  then show "px * w * (1 - 1 / 2 ^ 24) \<le> float32 (px * w)"
    and "float32 (px * w) \<le> px * w * (1 + 1 / 2 ^ 24)"
    and "float32 (px * w) = 0 \<or> 1 / 2 ^ 101 \<le> float32 (px * w)"
    unfolding x_def by blast+
qed

lemma sum_list_weights:
  fixes taps :: "(real \<times> real) list"
  shows "sum_list (map (\<lambda>(px, w). k * w) taps) = k * sum_list (map snd taps)"
  by (induction taps) (simp_all add: algebra_simps case_prod_unfold)

text \<open>
  One output value. The taps of its window have weights between 0 and 1 and samples
  between \<open>lo\<close> and \<open>hi\<close>, none of them a tiny non-zero number; some weight is
  positive; there are at most \<open>2^20\<close> taps. Then the rounded total is positive and the
  value written lies between \<open>lo\<close> and \<open>hi\<close> up to the relative error \<open>2^-22\<close>.
\<close>

lemma rounded_quotient_bounds:
  fixes taps :: "(real \<times> real) list"
  assumes w: "\<And>px w. (px, w) \<in> set taps \<Longrightarrow> w \<le> 1 \<and> (w = 0 \<or> 1 / 2 ^ 60 \<le> w)"
    and px: "\<And>px w. (px, w) \<in> set taps \<Longrightarrow> lo \<le> px \<and> px \<le> hi \<and> (px = 0 \<or> 1 / 2 ^ 40 \<le> px)"
    and lo: "0 \<le> lo"
    and centre: "(pc, wc) \<in> set taps" "0 < wc"
    and len: "length taps \<le> 2 ^ 20"
  shows "0 < snd (rounded_sums taps)"
    and "lo * (1 - 1 / 2 ^ 22) \<le> rounded_quotient (rounded_sums taps)"
    and "rounded_quotient (rounded_sums taps) \<le> hi * (1 + 1 / 2 ^ 22)"
proof -
  define a :: real where "a = 1 / 2 ^ 24"
  define u :: real where "u = 1 / 2 ^ 53"
  define e :: real where "e = 1 / 2 ^ 22"
  define n where "n = real (length taps)"
  define t where "t = n / 2 ^ 53"
  define P where "P = map (\<lambda>(px, w). float32 (px * w)) taps"
  define Wl where "Wl = map snd taps"
  define Q where "Q = sum_list P"
  define T where "T = sum_list Wl"
  define V where "V = float64_sum P"
  define Tr where "Tr = float64_sum Wl"
  have a: "0 \<le> a" "a \<le> 1" and u: "0 \<le> u" "u \<le> 1" by (simp_all add: a_def u_def)
  have n: "0 \<le> n" "n \<le> 2 ^ 20" using len by (simp_all add: n_def)
  have t: "0 \<le> t" "t \<le> 1 / 2 ^ 33"
  proof -
    show "0 \<le> t" using n by (simp add: t_def)
    have "n / 2 ^ 53 \<le> 2 ^ 20 / 2 ^ 53" using n by (intro divide_right_mono) simp_all
    then show "t \<le> 1 / 2 ^ 33" by (simp add: t_def)
  qed
  then have t1: "1 / 2 \<le> 1 - t" "1 + 2 * t \<le> 2" by simp_all
  have sums: "rounded_sums taps = (V, Tr)"
    by (simp add: rounded_sums_split V_def Tr_def P_def Wl_def)
  text \<open>The taps.\<close>
  have w0: "0 \<le> w" and w1: "w \<le> 1" and wz: "w = 0 \<or> 1 / 2 ^ 60 \<le> w"
    if "(px, w) \<in> set taps" for px w
  proof -
    from w [OF that] show "w \<le> 1" and wz: "w = 0 \<or> 1 / 2 ^ 60 \<le> w" by simp_all
    then show "0 \<le> w" by auto
  qed
  have p0: "0 \<le> px" if "(px, w) \<in> set taps" for px w
    using px [OF that] by auto
  have hi0: "0 \<le> hi" using px [OF centre(1)] lo by simp
  text \<open>The rounded products.\<close>
  have prod: "px * w * (1 - a) \<le> float32 (px * w) \<and> float32 (px * w) \<le> px * w * (1 + a)
      \<and> (float32 (px * w) = 0 \<or> 1 / 2 ^ 101 \<le> float32 (px * w))"
    if "(px, w) \<in> set taps" for px w
    using float32_product_bounds [of px w] px [OF that] wz [OF that] by (simp add: a_def)
  have Pz: "z = 0 \<or> 1 / 2 ^ 101 \<le> z" if "z \<in> set P" for z
    using that prod by (auto simp: P_def)
  have Wz: "z = 0 \<or> 1 / 2 ^ 60 \<le> z" if "z \<in> set Wl" for z
  proof -
    from that obtain p where "(p, z) \<in> set taps" by (auto simp: Wl_def)
    then show ?thesis by (rule wz)
  qed
  have len52: "length P \<le> 2 ^ 52" "length Wl \<le> 2 ^ 52"
    using len by (simp_all add: P_def Wl_def order_trans [where y = "2 ^ 20"])
  have V: "Q * (1 - t) \<le> V" "V \<le> Q * (1 + 2 * t)"
    using float64_sum_bounds [OF Pz _ len52(1)]
    by (simp_all add: Q_def V_def t_def n_def P_def)
  have Tr: "T * (1 - t) \<le> Tr" "Tr \<le> T * (1 + 2 * t)"
    using float64_sum_bounds [OF Wz _ len52(2)]
    by (simp_all add: T_def Tr_def t_def n_def Wl_def)
  text \<open>The exact sums.\<close>
  have "wc \<in> set Wl" using centre(1) by (force simp: Wl_def)
  moreover have Wl0: "0 \<le> z" if "z \<in> set Wl" for z
    using that w0 by (auto simp: Wl_def)
  ultimately have "wc \<le> T"
    unfolding T_def by (intro member_le_sum_list) simp_all
  with centre(2) have T0: "0 < T" by simp
  have "T \<le> sum_list (map (\<lambda>tp. 1) taps)"
    unfolding T_def Wl_def by (rule sum_list_mono) (use w1 in auto)
  then have Tn: "T \<le> n" by (simp add: n_def sum_list_triv)
  have Qhi: "Q \<le> hi * (1 + a) * T"
  proof -
    have "Q \<le> sum_list (map (\<lambda>(px, w). hi * (1 + a) * w) taps)"
      unfolding Q_def P_def map_map comp_def
    proof (rule sum_list_mono)
      fix tp assume tp: "tp \<in> set taps"
      obtain p v where pv: "tp = (p, v)" by (cases tp)
      from tp pv have m: "(p, v) \<in> set taps" by simp
      have "p * v * (1 + a) \<le> hi * v * (1 + a)"
        using px [OF m] w0 [OF m] a by (intro mult_right_mono) simp_all
      with prod [OF m] show "(case tp of (px, w) \<Rightarrow> float32 (px * w))
          \<le> (case tp of (px, w) \<Rightarrow> hi * (1 + a) * w)"
        by (simp add: pv algebra_simps)
    qed
    then show ?thesis by (simp add: sum_list_weights T_def Wl_def)
  qed
  have Qlo: "lo * (1 - a) * T \<le> Q"
  proof -
    have "sum_list (map (\<lambda>(px, w). lo * (1 - a) * w) taps) \<le> Q"
      unfolding Q_def P_def map_map comp_def
    proof (rule sum_list_mono)
      fix tp assume tp: "tp \<in> set taps"
      obtain p v where pv: "tp = (p, v)" by (cases tp)
      from tp pv have m: "(p, v) \<in> set taps" by simp
      have "lo * v * (1 - a) \<le> p * v * (1 - a)"
        using px [OF m] w0 [OF m] a by (intro mult_right_mono) simp_all
      with prod [OF m] show "(case tp of (px, w) \<Rightarrow> lo * (1 - a) * w)
          \<le> (case tp of (px, w) \<Rightarrow> float32 (px * w))"
        by (simp add: pv algebra_simps)
    qed
    then show ?thesis by (simp add: sum_list_weights T_def Wl_def)
  qed
  from sum_list_zero_or_ge [OF Pz] have Q0: "0 \<le> Q" and Qz: "Q = 0 \<or> 1 / 2 ^ 101 \<le> Q"
    by (simp_all add: Q_def)
  text \<open>The rounded total.\<close>
  have "T * (1 / 2) \<le> T * (1 - t)"
    using T0 t1 by (intro mult_left_mono) simp_all
  with Tr(1) T0 have Tr0: "0 < Tr" by linarith
  then show "0 < snd (rounded_sums taps)" by (simp add: sums)
  have "T * (1 + 2 * t) \<le> n * 2"
    using Tn t1 t T0 by (intro mult_mono) simp_all
  with Tr(2) n have Trn: "Tr \<le> 2 ^ 21" by simp
  text \<open>The quotient.\<close>
  have "lo * (1 - e) \<le> rounded_quotient (V, Tr) \<and> rounded_quotient (V, Tr) \<le> hi * (1 + e)"
  proof (cases "Q = 0")
    case True
    with V have "V = 0" by simp
    then have "rounded_quotient (V, Tr) = 0"
      by (simp add: rounded_quotient_def float32_def float64_def float_round_zero)
    moreover have "lo * ((1 - a) * T) \<le> 0"
      using Qlo True by (simp add: mult.assoc)
    then have "lo \<le> 0"
      using T0 a by (simp add: mult_le_0_iff a_def)
    with lo have "lo = 0" by simp
    moreover have "0 \<le> hi * (1 + e)"
      using hi0 by (simp add: e_def)
    ultimately show ?thesis by simp
  next
    case False
    with Qz have Q: "1 / 2 ^ 101 \<le> Q" by simp
    define q where "q = V / Tr"
    define r where "r = float64 q"
    have "(1 / 2 ^ 101) * (1 / 2) \<le> Q * (1 - t)"
      using Q t1 by (intro mult_mono) simp_all
    with V(1) have V0: "1 / 2 ^ 102 \<le> V" by simp
    then have Vpos: "0 \<le> V" by (rule order_trans [rotated]) simp
    have "(1 / 2 ^ 102) / 2 ^ 21 \<le> V / Tr"
      using V0 Trn Tr0 by (intro frac_le) simp_all
    then have q0: "1 / 2 ^ 123 \<le> q" by (simp add: q_def)
    then have "1 / 2 ^ 1022 \<le> q" by (rule order_trans [rotated]) simp
    note rq = float64_rel_pos [OF this, folded r_def u_def]
    have "(1 / 2 ^ 123) * (1 / 2) \<le> q * (1 - u)"
      using q0 by (intro mult_mono) (simp_all add: u_def)
    with rq(1) have r0: "1 / 2 ^ 124 \<le> r" by simp
    then have "1 / 2 ^ 126 \<le> r" by (rule order_trans [rotated]) simp
    note out = float32_rel_pos [OF this, folded a_def]
    have qpos: "0 \<le> q" using q0 by (rule order_trans [rotated]) simp
    have rpos: "0 \<le> r" using r0 by (rule order_trans [rotated]) simp
    text \<open>From above.\<close>
    have "V \<le> hi * (1 + a) * T * (1 + 2 * t)"
    proof -
      have "Q * (1 + 2 * t) \<le> hi * (1 + a) * T * (1 + 2 * t)"
        using Qhi t by (intro mult_right_mono) simp_all
      with V(2) show ?thesis by simp
    qed
    then have "V / Tr \<le> (hi * (1 + a) * T * (1 + 2 * t)) / (T * (1 - t))"
      using Vpos Tr(1) T0 t1 by (intro frac_le) simp_all
    also have "\<dots> = hi * (1 + a) * (1 + 2 * t) / (1 - t)"
      using T0 by simp
    finally have qhi: "q * (1 - t) \<le> hi * (1 + a) * (1 + 2 * t)"
      using t1 by (simp add: q_def pos_le_divide_eq)
    have "float32 r \<le> r * (1 + a)" by (rule out(2))
    also have "\<dots> \<le> q * (1 + u) * (1 + a)"
      using rq(2) a by (intro mult_right_mono) simp_all
    finally have "float32 r \<le> q * (1 + u) * (1 + a)" .
    then have "float32 r * (1 - t) \<le> q * (1 + u) * (1 + a) * (1 - t)"
      using t1 by (intro mult_right_mono) simp_all
    also have "\<dots> = q * (1 - t) * ((1 + u) * (1 + a))"
      by (simp add: mult_ac)
    also have "\<dots> \<le> hi * (1 + a) * (1 + 2 * t) * ((1 + u) * (1 + a))"
      using qhi a u by (intro mult_right_mono) simp_all
    also have "\<dots> = hi * ((1 + a) * (1 + a) * (1 + u) * (1 + 2 * t))"
      by (simp add: mult_ac)
    also have "\<dots> \<le> hi * ((1 + e) * (1 - t))"
      using slack_upper [OF t] hi0 unfolding a_def u_def e_def by (intro mult_left_mono)
    also have "\<dots> = hi * (1 + e) * (1 - t)"
      by (simp add: mult_ac)
    finally have "float32 r * (1 - t) \<le> hi * (1 + e) * (1 - t)" .
    then have upper: "float32 r \<le> hi * (1 + e)"
      by (rule mult_right_le_imp_le) (use t1 in simp)
    text \<open>From below.\<close>
    have "lo * (1 - a) * T * (1 - t) \<le> V"
    proof -
      have "lo * (1 - a) * T * (1 - t) \<le> Q * (1 - t)"
        using Qlo t1 by (intro mult_right_mono) simp_all
      with V(1) show ?thesis by simp
    qed
    moreover have "0 \<le> lo * (1 - a) * T * (1 - t)"
      using lo a T0 t1 by (intro mult_nonneg_nonneg) simp_all
    ultimately have "(lo * (1 - a) * T * (1 - t)) / (T * (1 + 2 * t)) \<le> V / Tr"
      using Tr(2) Tr0 by (intro frac_le) simp_all
    moreover have "(lo * (1 - a) * T * (1 - t)) / (T * (1 + 2 * t))
        = lo * (1 - a) * (1 - t) / (1 + 2 * t)"
      using T0 by simp
    ultimately have qlo: "lo * (1 - a) * (1 - t) \<le> q * (1 + 2 * t)"
      using t by (simp add: q_def pos_divide_le_eq)
    have "q * (1 - u) * (1 - a) \<le> r * (1 - a)"
      using rq(1) a by (intro mult_right_mono) simp_all
    also have "\<dots> \<le> float32 r" by (rule out(1))
    finally have "q * (1 - u) * (1 - a) \<le> float32 r" .
    have "lo * (1 - e) * (1 + 2 * t) = lo * ((1 - e) * (1 + 2 * t))"
      by (simp add: mult_ac)
    also have "\<dots> \<le> lo * ((1 - a) * (1 - a) * (1 - u) * (1 - t))"
      using slack_lower [OF t] lo unfolding a_def u_def e_def by (intro mult_left_mono)
    also have "\<dots> = lo * (1 - a) * (1 - t) * ((1 - u) * (1 - a))"
      by (simp add: mult_ac)
    also have "\<dots> \<le> q * (1 + 2 * t) * ((1 - u) * (1 - a))"
      using qlo a u by (intro mult_right_mono) simp_all
    also have "\<dots> = q * (1 - u) * (1 - a) * (1 + 2 * t)"
      by (simp add: mult_ac)
    also have "\<dots> \<le> float32 r * (1 + 2 * t)"
      using \<open>q * (1 - u) * (1 - a) \<le> float32 r\<close> t by (intro mult_right_mono) simp_all
    finally have "lo * (1 - e) * (1 + 2 * t) \<le> float32 r * (1 + 2 * t)" .
    then have lower: "lo * (1 - e) \<le> float32 r"
      by (rule mult_right_le_imp_le) (use t in simp)
    from lower upper show ?thesis
      by (simp add: rounded_quotient_def q_def r_def)
  qed
  then show "lo * (1 - 1 / 2 ^ 22) \<le> rounded_quotient (rounded_sums taps)"
    and "rounded_quotient (rounded_sums taps) \<le> hi * (1 + 1 / 2 ^ 22)"
    by (simp_all add: sums e_def)
qed





section \<open>The kernels of sigma = 1 in float32 numbers\<close>

text \<open>Their weights sum to 1 up to the rounding of the weights.\<close>

lemma int_interval_06: "{0..6::int} = {0, 1, 2, 3, 4, 5, 6}" by auto


lemma sigma_one_kernel_1d_sum:
  "(\<Sum>j = 0..6. sigma_one_kernel_1d 0 j) = 536870893 / 2 ^ 29"
  by (simp add: int_interval_06 sigma_one_kernel_1d_def centre_weight_1d_def Let_def)

section \<open>Windows of a single tap\<close>

lemma window_taps_single:
  assumes pos: "(c, y, x) \<in> positions (shape3 img)"
    and w1: "snd (snd (shape3 img)) = 1"
    and h1: "fst (shape2 kern) = 1 \<or> fst (snd (shape3 img)) = 1"
  shows "window_taps img kern c y x
     = [(data3 img c y x,
         data2 kern (int (fst (shape2 kern)) div 2) (int (snd (shape2 kern)) div 2))]"
proof -
  from pos w1 have x: "x = 0" and y: "0 \<le> y" "y < int (fst (snd (shape3 img)))"
    by (auto simp: positions_def)
  have u: "[max 0 (x - int (snd (shape2 kern)) div 2)
             ..min (int (snd (snd (shape3 img))) - 1) (x + int (snd (shape2 kern)) div 2)] = [x]"
  proof -
    have "max 0 (x - int (snd (shape2 kern)) div 2) = x"
      "min (int (snd (snd (shape3 img))) - 1) (x + int (snd (shape2 kern)) div 2) = x"
      using x w1 by simp_all
    then show ?thesis by simp
  qed
  have v: "[max 0 (y - int (fst (shape2 kern)) div 2)
             ..min (int (fst (snd (shape3 img))) - 1) (y + int (fst (shape2 kern)) div 2)] = [y]"
  proof -
    have "max 0 (y - int (fst (shape2 kern)) div 2) = y
        \<and> min (int (fst (snd (shape3 img))) - 1) (y + int (fst (shape2 kern)) div 2) = y"
      using h1 y by auto
    then show ?thesis by simp
  qed
  show ?thesis
    unfolding window_taps_def Let_def u v by simp
qed

text \<open>
  With a single tap in every window, the rounded \<open>convolve\<close> multiplies the sample
  by the centre weight and divides the product by the weight, each result rounded.
\<close>

lemma convolve_rounded_single_tap:
  assumes neq: "image_ref \<noteq> output_ref"
    and sh: "shape3 (heap s output_ref) = shape3 (heap s image_ref)"
    and w1: "snd (snd (shape3 (heap s image_ref))) = 1"
    and h1: "fst (shape2 (kheap s kernel_ref)) = 1 \<or> fst (snd (shape3 (heap s image_ref))) = 1"
    and tot: "float64 (data2 (kheap s kernel_ref) (int (fst (shape2 (kheap s kernel_ref))) div 2)
                                                    (int (snd (shape2 (kheap s kernel_ref))) div 2)) \<noteq> 0"
  shows "\<exists>s'. convolve_rounded s image_ref output_ref kernel_ref = Inr s'
           \<and> (\<forall>(c, y, x) \<in> positions (shape3 (heap s image_ref)).
                 data3 (heap s' output_ref) c y x
                   = float32 (float64 (float64 (float32 (data3 (heap s image_ref) c y x
                        * data2 (kheap s kernel_ref) (int (fst (shape2 (kheap s kernel_ref))) div 2)
                                                      (int (snd (shape2 (kheap s kernel_ref))) div 2)))
                      / float64 (data2 (kheap s kernel_ref)
                                   (int (fst (shape2 (kheap s kernel_ref))) div 2)
                                   (int (snd (shape2 (kheap s kernel_ref))) div 2)))))"
proof -
  let ?img = "heap s image_ref" and ?kern = "kheap s kernel_ref"
  let ?w = "data2 ?kern (int (fst (shape2 ?kern)) div 2) (int (snd (shape2 ?kern)) div 2)"
  have sums: "rounded_sums (window_taps ?img ?kern c y x)
      = (float64 (float32 (data3 ?img c y x * ?w)), float64 ?w)"
    if "(c, y, x) \<in> positions (shape3 ?img)" for c y x
    by (simp add: window_taps_single [OF that w1 h1] rounded_sums_def)
  then have "\<forall>(c, y, x) \<in> positions (shape3 ?img).
      snd (rounded_sums (window_taps ?img ?kern c y x)) \<noteq> 0"
    using tot by auto
  with convolve_rounded_checked [OF neq, of s kernel_ref] sh
  have "convolve_rounded s image_ref output_ref kernel_ref
      = Inr (written s output_ref (out_value_rounded ?img ?kern) (positions (shape3 ?img)))"
    by simp
  moreover have "out_value_rounded ?img ?kern c y x
      = float32 (float64 (float64 (float32 (data3 ?img c y x * ?w)) / float64 ?w))"
    if "(c, y, x) \<in> positions (shape3 ?img)" for c y x
    by (simp add: out_value_rounded_def rounded_quotient_def sums [OF that])
  ultimately show ?thesis
    by (auto simp: data3_written)
qed

lemma positions_one_pixel: "positions (1, 1, 1) = {(0, 0, 0)}"
  by (auto simp: positions_def)


lemma positions_column: "positions (1, 2, 1) = {(0, 0, 0), (0, 1, 0)}"
  by (auto simp: positions_def)

section \<open>Three samples that rounding moves\<close>



lemma rounding_sample_15:
  "float32 (float64 (float64 (float32 (sample_15 * centre_weight_1d)) / float64 centre_weight_1d)) = 15790322 / 2 ^ 28"
proof -
  have p: "float32 (15790321 / 2 ^ 28 * (13389905 / 2 ^ 25)) = 1575283 / 2 ^ 26"
  proof -
    have "float_round 24 (- 149) (15790321 / 2 ^ 28 * (13389905 / 2 ^ 25)) = of_int 12602264 * power_int 2 (- 29)"
      by (rule float_round_eval [where e = "- 6"]) (simp_all add: rne_def Let_def)
    then show ?thesis by (simp add: float32_def)
  qed
  have v: "float64 (1575283 / 2 ^ 26) = 1575283 / 2 ^ 26"
  proof -
    have "float_round 53 (- 1074) (1575283 / 2 ^ 26) = of_int 6765788966944768 * power_int 2 (- 58)"
      by (rule float_round_eval [where e = "- 6"]) (simp_all add: rne_def Let_def)
    then show ?thesis by (simp add: float64_def)
  qed
  have t: "float64 (13389905 / 2 ^ 25) = 13389905 / 2 ^ 25"
  proof -
    have "float_round 53 (- 1074) (13389905 / 2 ^ 25) = of_int 7188650508943360 * power_int 2 (- 54)"
      by (rule float_round_eval [where e = "- 2"]) (simp_all add: rne_def Let_def)
    then show ?thesis by (simp add: float64_def)
  qed
  have r: "float64 (1575283 / 2 ^ 26 / (13389905 / 2 ^ 25)) = 529835270063759 / 2 ^ 53"
  proof -
    have "float_round 53 (- 1074) (1575283 / 2 ^ 26 / (13389905 / 2 ^ 25)) = of_int 8477364321020144 * power_int 2 (- 57)"
      by (rule float_round_eval [where e = "- 5"]) (simp_all add: rne_def Let_def)
    then show ?thesis by (simp add: float64_def)
  qed
  have o: "float32 (529835270063759 / 2 ^ 53) = 15790322 / 2 ^ 28"
  proof -
    have "float_round 24 (- 149) (529835270063759 / 2 ^ 53) = of_int 15790322 * power_int 2 (- 28)"
      by (rule float_round_eval [where e = "- 5"]) (simp_all add: rne_def Let_def)
    then show ?thesis by (simp add: float32_def)
  qed
  show ?thesis
    unfolding sample_15_def centre_weight_1d_def p v t r o ..
qed


section \<open>No new extrema, up to rounding\<close>





lemma float64_one: "float64 1 = 1"
  using float_round_pow2 [of 53 "- 1074" 0] by (simp add: float64_def)

lemma float32_one: "float32 1 = 1"
  using float_round_pow2 [of 24 "- 149" 0] by (simp add: float32_def)

lemma float64_two: "float64 2 = 2"
  using float_round_pow2 [of 53 "- 1074" 1] by (simp add: float64_def)

lemma float64_half: "float64 (1 / 2) = 1 / 2"
  using float_round_pow2 [of 53 "- 1074" "- 1"] by (simp add: float64_def power_int_minus field_simps)

lemma float32_half: "float32 (1 / 2) = 1 / 2"
  using float_round_pow2 [of 24 "- 149" "- 1"] by (simp add: float32_def power_int_minus field_simps)

lemma float32_zero: "float32 0 = 0"
  by (simp add: float32_def float_round_zero)

lemma float64_zero: "float64 0 = 0"
  by (simp add: float64_def float_round_zero)

text \<open>
  One tap: the rounded product divided by the rounded weight is the sample up to the
  relative error \<open>2^-22\<close>.
\<close>

lemma single_tap_bounds:
  assumes w: "1 / 2 ^ 60 \<le> w" "w \<le> 1" and px: "px = 0 \<or> 1 / 2 ^ 40 \<le> px"
  shows "px * (1 - 1 / 2 ^ 22) \<le> float32 (float64 (float64 (float32 (px * w)) / float64 w))"
    and "float32 (float64 (float64 (float32 (px * w)) / float64 w)) \<le> px * (1 + 1 / 2 ^ 22)"
proof -
  have w0: "0 < w"
  proof -
    have "(0::real) < 1 / 2 ^ 60" by simp
    with w(1) show ?thesis by linarith
  qed
  have p0: "0 \<le> px"
  proof -
    have "(0::real) < 1 / 2 ^ 40" by simp
    with px show ?thesis by linarith
  qed
  have a: "\<And>p v. (p, v) \<in> set [(px, w)] \<Longrightarrow> v \<le> 1 \<and> (v = 0 \<or> 1 / 2 ^ 60 \<le> v)"
    using w by simp
  have b: "\<And>p v. (p, v) \<in> set [(px, w)] \<Longrightarrow> px \<le> p \<and> p \<le> px \<and> (p = 0 \<or> 1 / 2 ^ 40 \<le> p)"
    using px by simp
  have c: "(px, w) \<in> set [(px, w)]" by simp
  have l: "length [(px, w)] \<le> 2 ^ 20" by simp
  note r = rounded_quotient_bounds [of "[(px, w)]" px px px w, OF a b p0 c w0 l]
  from r(2) show "px * (1 - 1 / 2 ^ 22) \<le> float32 (float64 (float64 (float32 (px * w)) / float64 w))"
    by (simp add: rounded_sums_def rounded_quotient_def)
  from r(3) show "float32 (float64 (float64 (float32 (px * w)) / float64 w)) \<le> px * (1 + 1 / 2 ^ 22)"
    by (simp add: rounded_sums_def rounded_quotient_def)
qed

section \<open>Constant images, up to rounding\<close>




section \<open>Images of width one, up to rounding\<close>

text \<open>
  C5 (as amended). For an image of width 1 whose samples are 0 or lie between \<open>2^-40\<close>
  and 1, a distinct output array of the same shape and a non-empty kernel whose centre
  weight \<open>w\<close> lies between \<open>2^-60\<close> and 1, where the kernel has a single row or the
  image a single row: the rounded \<open>convolve\<close> returns, the value written for a sample
  \<open>px\<close> is the rounded product \<open>px * w\<close> divided by \<open>w\<close> and rounded, and it equals
  \<open>px\<close> up to the relative rounding error \<open>2^-22\<close>. (Only then is the centre the
  single tap of every window.)
\<close>

theorem convolve_rounded_single_column:
  assumes "image_ref \<noteq> output_ref"
    and "shape3 (heap s output_ref) = shape3 (heap s image_ref)"
    and "snd (snd (shape3 (heap s image_ref))) = 1"
    and "0 < fst (shape2 (kheap s kernel_ref))"
    and "0 < snd (shape2 (kheap s kernel_ref))"
    and "fst (shape2 (kheap s kernel_ref)) = 1 \<or> fst (snd (shape3 (heap s image_ref))) = 1"
    and "w = data2 (kheap s kernel_ref) (int (fst (shape2 (kheap s kernel_ref))) div 2)
                                        (int (snd (shape2 (kheap s kernel_ref))) div 2)"
    and "1 / 2 ^ 60 \<le> w" and "w \<le> 1"
    and "\<forall>(c, y, x) \<in> positions (shape3 (heap s image_ref)).
           data3 (heap s image_ref) c y x \<le> 1
           \<and> (data3 (heap s image_ref) c y x = 0
              \<or> 1 / 2 ^ 40 \<le> data3 (heap s image_ref) c y x)"
  shows "\<exists>s'. convolve_rounded s image_ref output_ref kernel_ref = Inr s'
           \<and> (\<forall>(c, y, x) \<in> positions (shape3 (heap s image_ref)).
                 data3 (heap s' output_ref) c y x
                   = float32 (float64 (float64 (float32 (data3 (heap s image_ref) c y x * w))
                                       / float64 w))
                 \<and> data3 (heap s image_ref) c y x * (1 - 1 / 2 ^ 22)
                     \<le> data3 (heap s' output_ref) c y x
                 \<and> data3 (heap s' output_ref) c y x
                     \<le> data3 (heap s image_ref) c y x * (1 + 1 / 2 ^ 22))"
proof -
  let ?img = "heap s image_ref"
  have "(0::real) < 1 / 2 ^ 60" by simp
  with assms(8) have "power_int 2 (- 1074) \<le> w"
  proof -
    have "power_int (2::real) (- 1074) \<le> power_int 2 (- 60)"
      by (rule pow2_mono) simp
    also have "\<dots> = 1 / 2 ^ 60"
      by (simp add: power_int_minus field_simps)
    finally show ?thesis using assms(8) by linarith
  qed
  then have "0 < float64 w"
    unfolding float64_def by (intro float_round_pos) simp_all
  then have tot: "float64 (data2 (kheap s kernel_ref)
                     (int (fst (shape2 (kheap s kernel_ref))) div 2)
                     (int (snd (shape2 (kheap s kernel_ref))) div 2)) \<noteq> 0"
    unfolding assms(7) by simp
  from convolve_rounded_single_tap [OF assms(1,2,3,6) tot]
  obtain s' where conv: "convolve_rounded s image_ref output_ref kernel_ref = Inr s'"
    and val: "\<forall>(c, y, x) \<in> positions (shape3 ?img).
           data3 (heap s' output_ref) c y x
             = float32 (float64 (float64 (float32 (data3 ?img c y x * w)) / float64 w))"
    unfolding assms(7) by blast
  have "data3 (heap s' output_ref) c y x
             = float32 (float64 (float64 (float32 (data3 ?img c y x * w)) / float64 w))
        \<and> data3 ?img c y x * (1 - 1 / 2 ^ 22) \<le> data3 (heap s' output_ref) c y x
        \<and> data3 (heap s' output_ref) c y x \<le> data3 ?img c y x * (1 + 1 / 2 ^ 22)"
    if pos: "(c, y, x) \<in> positions (shape3 ?img)" for c y x
  proof -
    from val pos have v: "data3 (heap s' output_ref) c y x
             = float32 (float64 (float64 (float32 (data3 ?img c y x * w)) / float64 w))"
      by blast
    from assms(10) pos have px: "data3 ?img c y x = 0 \<or> 1 / 2 ^ 40 \<le> data3 ?img c y x"
      by blast
    from single_tap_bounds [OF assms(8,9) px] v show ?thesis
      by simp
  qed
  with conv show ?thesis
    by blast
qed

theorem convolve_rounded_single_column_witness:
  "(0::nat) \<noteq> 1
   \<and> shape3 (heap unit_column_store 1) = shape3 (heap unit_column_store 0)
   \<and> shape3 (heap unit_column_store 0) = (1, 2, 1)
   \<and> shape2 (kheap unit_column_store 0) = (1, 3)
   \<and> data2 (kheap unit_column_store 0) 0 1 = 1 / 2
   \<and> data3 (heap unit_column_store 0) 0 0 0 = 0
   \<and> data3 (heap unit_column_store 0) 0 1 0 = 1 / 2
   \<and> (\<exists>s'. convolve_rounded unit_column_store 0 1 0 = Inr s'
         \<and> data3 (heap s' 1) 0 0 0 = 0 \<and> data3 (heap s' 1) 0 1 0 = 1 / 2)"
proof -
  have sh: "shape3 (heap unit_column_store 1) = shape3 (heap unit_column_store 0)"
    and ish: "shape3 (heap unit_column_store 0) = (1, 2, 1)"
    and k: "shape2 (kheap unit_column_store 0) = (1, 3)"
      "data2 (kheap unit_column_store 0) 0 1 = 1 / 2"
    and d: "data3 (heap unit_column_store 0) 0 0 0 = 0"
      "data3 (heap unit_column_store 0) 0 1 0 = 1 / 2"
    by (simp_all add: unit_column_store_def example_store_def empty_store_def)
  have neq: "(0::nat) \<noteq> 1" by simp
  have w1: "snd (snd (shape3 (heap unit_column_store 0))) = 1"
    and kh: "0 < fst (shape2 (kheap unit_column_store 0))"
    and kw: "0 < snd (shape2 (kheap unit_column_store 0))"
    and h1: "fst (shape2 (kheap unit_column_store 0)) = 1
             \<or> fst (snd (shape3 (heap unit_column_store 0))) = 1"
    and w: "1 / 2 = data2 (kheap unit_column_store 0)
                      (int (fst (shape2 (kheap unit_column_store 0))) div 2)
                      (int (snd (shape2 (kheap unit_column_store 0))) div 2)"
    by (simp_all add: ish k)
  have wl: "1 / 2 ^ 60 \<le> (1 / 2 :: real)" and wu: "(1 / 2 :: real) \<le> 1"
    by simp_all
  have img: "\<forall>(c, y, x) \<in> positions (shape3 (heap unit_column_store 0)).
           data3 (heap unit_column_store 0) c y x \<le> 1
           \<and> (data3 (heap unit_column_store 0) c y x = 0
              \<or> 1 / 2 ^ 40 \<le> data3 (heap unit_column_store 0) c y x)"
    unfolding ish positions_column using d by simp
  from convolve_rounded_single_column [OF neq sh w1 kh kw h1 w wl wu img]
  obtain s' where "convolve_rounded unit_column_store 0 1 0 = Inr s'"
    and "\<forall>(c, y, x) \<in> positions (shape3 (heap unit_column_store 0)).
           data3 (heap s' 1) c y x
             = float32 (float64 (float64 (float32 (data3 (heap unit_column_store 0) c y x * (1 / 2)))
                                 / float64 (1 / 2)))
           \<and> data3 (heap unit_column_store 0) c y x * (1 - 1 / 2 ^ 22) \<le> data3 (heap s' 1) c y x
           \<and> data3 (heap s' 1) c y x
               \<le> data3 (heap unit_column_store 0) c y x * (1 + 1 / 2 ^ 22)"
    by blast
  then have "convolve_rounded unit_column_store 0 1 0 = Inr s'
         \<and> data3 (heap s' 1) 0 0 0 = float32 (float64 (float64 (float32 (0 * (1 / 2))) / float64 (1 / 2)))
         \<and> data3 (heap s' 1) 0 1 0
             = float32 (float64 (float64 (float32 (1 / 2 * (1 / 2))) / float64 (1 / 2)))"
    unfolding ish positions_column by (simp add: d)
  moreover have "float32 (1 / 4) = 1 / 4"
    using float_round_pow2 [of 24 "- 149" "- 2"] by (simp add: float32_def power_int_minus field_simps)
  moreover have "float64 (1 / 4) = 1 / 4"
    using float_round_pow2 [of 53 "- 1074" "- 2"] by (simp add: float64_def power_int_minus field_simps)
  ultimately have "convolve_rounded unit_column_store 0 1 0 = Inr s'
         \<and> data3 (heap s' 1) 0 0 0 = 0 \<and> data3 (heap s' 1) 0 1 0 = 1 / 2"
    by (simp add: float32_zero float64_zero float64_half float32_half)
  with neq sh ish k d show ?thesis
    by (intro conjI exI [of _ s']) simp_all
qed

text \<open>
  Two ways in which the output column is not the input column. With a kernel of more
  than one row the column is blurred along itself: on the column (0, 1) of width 1 and
  the 3 x 3 kernel of ones, two taps lie over the image at the top pixel and the output
  there is 1/2, not the input 0, with rounding as without. And with a single tap rounding
  moves the value: on the single pixel \<open>sample_15\<close> the 1 x 7 kernel of \<open>sigma = 1\<close>
  gives the next \<open>float32\<close> number above it.
\<close>

theorem convolve_single_column_counterexample:
  "shape3 (heap column_store 0) = (1, 2, 1)
   \<and> shape3 (heap column_store 1) = (1, 2, 1)
   \<and> shape2 (kheap column_store 0) = (3, 3)
   \<and> data3 (heap column_store 0) 0 0 0 = 0
   \<and> (\<exists>s'. convolve column_store 0 1 0 = Inr s' \<and> data3 (heap s' 1) 0 0 0 = 1 / 2)
   \<and> (\<exists>s'. convolve_rounded column_store 0 1 0 = Inr s' \<and> data3 (heap s' 1) 0 0 0 = 1 / 2)
   \<and> shape3 (heap column_rounding_store 0) = (1, 1, 1)
   \<and> shape3 (heap column_rounding_store 1) = (1, 1, 1)
   \<and> shape2 (kheap column_rounding_store 0) = (1, 7)
   \<and> (\<Sum>j = 0..6. data2 (kheap column_rounding_store 0) 0 j) = 536870893 / 2 ^ 29
   \<and> data3 (heap column_rounding_store 0) 0 0 0 = 15790321 / 2 ^ 28
   \<and> (\<exists>s'. convolve_rounded column_rounding_store 0 1 0 = Inr s'
         \<and> data3 (heap s' 1) 0 0 0 = 15790322 / 2 ^ 28)"
proof -
  have sh: "shape3 (heap column_store 0) = (1, 2, 1)" "shape3 (heap column_store 1) = (1, 2, 1)"
    and k: "shape2 (kheap column_store 0) = (3, 3)"
    and d: "data3 (heap column_store 0) 0 0 0 = 0"
    by (simp_all add: column_store_def example_store_def empty_store_def)
  have tot: "weight_total (heap column_store 0) (kheap column_store 0) y x \<noteq> 0"
    if "(c, y, x) \<in> positions (shape3 (heap column_store 0))" for c y x
  proof -
    have "0 < weight_total (heap column_store 0) (kheap column_store 0) y x"
      using that by (rule weight_total_pos)
        (simp_all add: column_store_def example_store_def empty_store_def)
    then show ?thesis by simp
  qed
  have conv: "convolve column_store 0 1 0
      = Inr (written column_store 1 (out_value (heap column_store 0) (kheap column_store 0))
               (positions (shape3 (heap column_store 0))))"
    using tot sh by (intro convolve_written) (simp_all add: k)
  have "out_value (heap column_store 0) (kheap column_store 0) 0 0 0 = 1 / 2"
    by (simp add: out_value_def weighted_sum_def weight_total_def column_store_def
        example_store_def empty_store_def int_interval_01)
  then have "data3 (heap (written column_store 1
                 (out_value (heap column_store 0) (kheap column_store 0))
                 (positions (shape3 (heap column_store 0)))) 1) 0 0 0 = 1 / 2"
    by (simp add: data3_written sh positions_def)
  with conv have one: "\<exists>s'. convolve column_store 0 1 0 = Inr s' \<and> data3 (heap s' 1) 0 0 0 = 1 / 2"
    by simp
  have upto: "[0..1::int] = [0, 1]"
    by (simp add: upto.simps)
  have taps: "window_taps (heap column_store 0) (kheap column_store 0) c y x
      = (if y = 0 then [(0, 1), (1, 1)] else [(0, 1), (1, 1)])"
    if "(c, y, x) \<in> positions (shape3 (heap column_store 0))" for c y x
  proof -
    from that have "x = 0" "y = 0 \<or> y = 1"
      by (auto simp: sh positions_def)
    then show ?thesis
      by (auto simp: window_taps_def column_store_def example_store_def empty_store_def upto)
  qed
  have sums: "rounded_sums [(0, 1), (1, 1)] = (1, 2)"
    by (simp add: rounded_sums_def float32_zero float64_zero float32_one float64_one float64_two)
  have "\<forall>(c, y, x) \<in> positions (shape3 (heap column_store 0)).
      snd (rounded_sums (window_taps (heap column_store 0) (kheap column_store 0) c y x)) \<noteq> 0"
    using taps sums by auto
  with convolve_rounded_checked [of 0 1 column_store 0] sh
  have convr: "convolve_rounded column_store 0 1 0
      = Inr (written column_store 1 (out_value_rounded (heap column_store 0) (kheap column_store 0))
               (positions (shape3 (heap column_store 0))))"
    by simp
  have p0: "(0, 0, 0) \<in> positions (shape3 (heap column_store 0))"
    by (simp add: sh positions_def)
  have "out_value_rounded (heap column_store 0) (kheap column_store 0) 0 0 0 = 1 / 2"
    by (simp add: out_value_rounded_def taps [OF p0] sums rounded_quotient_def float64_half
        float32_half)
  then have "data3 (heap (written column_store 1
                 (out_value_rounded (heap column_store 0) (kheap column_store 0))
                 (positions (shape3 (heap column_store 0)))) 1) 0 0 0 = 1 / 2"
    using p0 by (simp add: data3_written)
  with convr
  have two: "\<exists>s'. convolve_rounded column_store 0 1 0 = Inr s' \<and> data3 (heap s' 1) 0 0 0 = 1 / 2"
    by simp
  have rsh: "shape3 (heap column_rounding_store 0) = (1, 1, 1)"
      "shape3 (heap column_rounding_store 1) = (1, 1, 1)"
    and rk: "shape2 (kheap column_rounding_store 0) = (1, 7)"
    and rd: "data3 (heap column_rounding_store 0) 0 0 0 = sample_15"
    and rw: "data2 (kheap column_rounding_store 0) 0 3 = centre_weight_1d"
    by (simp_all add: column_rounding_store_def example_store_def empty_store_def
        sigma_one_kernel_1d_def)
  have rksum: "(\<Sum>j = 0..6. data2 (kheap column_rounding_store 0) 0 j) = 536870893 / 2 ^ 29"
    by (simp add: column_rounding_store_def example_store_def empty_store_def
        sigma_one_kernel_1d_sum)
  have "float64 centre_weight_1d \<noteq> 0"
    unfolding float64_def centre_weight_1d_def
    using float_round_pos [of 53 "- 1074" "13389905 / 2 ^ 25"] by simp
  then have rtot: "float64 (data2 (kheap column_rounding_store 0)
                        (int (fst (shape2 (kheap column_rounding_store 0))) div 2)
                        (int (snd (shape2 (kheap column_rounding_store 0))) div 2)) \<noteq> 0"
    by (simp add: rk rw)
  have neq: "(0::nat) \<noteq> 1"
    and eq: "shape3 (heap column_rounding_store 1) = shape3 (heap column_rounding_store 0)"
    and w1: "snd (snd (shape3 (heap column_rounding_store 0))) = 1"
    and h1: "fst (shape2 (kheap column_rounding_store 0)) = 1
             \<or> fst (snd (shape3 (heap column_rounding_store 0))) = 1"
    using rsh by simp_all
  from convolve_rounded_single_tap [OF neq eq w1 h1 rtot]
  obtain s' where "convolve_rounded column_rounding_store 0 1 0 = Inr s'"
    and "\<forall>(c, y, x) \<in> positions (shape3 (heap column_rounding_store 0)).
           data3 (heap s' 1) c y x
             = float32 (float64 (float64 (float32 (data3 (heap column_rounding_store 0) c y x
                  * data2 (kheap column_rounding_store 0)
                      (int (fst (shape2 (kheap column_rounding_store 0))) div 2)
                      (int (snd (shape2 (kheap column_rounding_store 0))) div 2)))
                / float64 (data2 (kheap column_rounding_store 0)
                             (int (fst (shape2 (kheap column_rounding_store 0))) div 2)
                             (int (snd (shape2 (kheap column_rounding_store 0))) div 2))))"
    by blast
  then have "convolve_rounded column_rounding_store 0 1 0 = Inr s'
      \<and> data3 (heap s' 1) 0 0 0 = 15790322 / 2 ^ 28"
    unfolding rsh positions_one_pixel by (simp add: rk rd rw rounding_sample_15)
  then have three: "\<exists>s'. convolve_rounded column_rounding_store 0 1 0 = Inr s'
      \<and> data3 (heap s' 1) 0 0 0 = 15790322 / 2 ^ 28"
    by blast
  have rd': "data3 (heap column_rounding_store 0) 0 0 0 = 15790321 / 2 ^ 28"
    using rd by (simp add: sample_15_def)
  from sh k d one two rsh rk rksum rd' three show ?thesis
    by blast
qed

section \<open>Writing an image\<close>

lemma files_write_image:
  "files (write_image s img_ref path) path
     = Some \<lparr>shape3 = (fst (snd (shape3 (heap s img_ref))), snd (snd (shape3 (heap s img_ref))),
                        fst (shape3 (heap s img_ref))),
             data3 = (\<lambda>y x c. astype_uint8 (data3 (heap s img_ref) c y x * 255))\<rparr>"
  by (simp add: write_image_def Let_def case_prod_unfold)


lemma uint_astype_uint8_in_range:
  assumes "0 \<le> v" "v < 256"
  shows "uint (astype_uint8 v) = \<lfloor>v\<rfloor>"
proof -
  have "0 \<le> \<lfloor>v\<rfloor>" "\<lfloor>v\<rfloor> < 256"
    using assms by (simp_all add: floor_less_iff)
  then show ?thesis
    using assms by (simp add: astype_uint8_def truncate_real_def uint_word_of_int take_bit_eq_mod)
qed

text \<open>
  C9 (as amended). \<open>write_image\<close> has no clamp. For every sample whose value scaled by
  255 lies in the range of a byte, from 0 up to but not including 256, the saved byte is
  the integer part of the scaled value.
\<close>

theorem write_image_bytes_in_range:
  "\<exists>bytes. files (write_image s img_ref path) path = Some bytes
     \<and> (\<forall>c y x. 0 \<le> data3 (heap s img_ref) c y x * 255
                  \<and> data3 (heap s img_ref) c y x * 255 < 256
          \<longrightarrow> uint (data3 bytes y x c) = \<lfloor>data3 (heap s img_ref) c y x * 255\<rfloor>)"
  by (simp add: files_write_image uint_astype_uint8_in_range)

theorem write_image_bytes_in_range_witness:
  "data3 (heap grey_store 0) 0 0 0 = 1 / 2
   \<and> (\<exists>bytes. files (write_image grey_store 0 ''output.jpg'') ''output.jpg'' = Some bytes
         \<and> uint (data3 bytes 0 0 0) = 127)"
proof -
  have d: "data3 (heap grey_store 0) 0 0 0 = 1 / 2"
    by (simp add: grey_store_def example_store_def empty_store_def)
  from write_image_bytes_in_range [of grey_store 0 "''output.jpg''"]
  obtain bytes where b: "files (write_image grey_store 0 ''output.jpg'') ''output.jpg'' = Some bytes"
    and r: "\<forall>c y x. 0 \<le> data3 (heap grey_store 0) c y x * 255
                  \<and> data3 (heap grey_store 0) c y x * 255 < 256
          \<longrightarrow> uint (data3 bytes y x c) = \<lfloor>data3 (heap grey_store 0) c y x * 255\<rfloor>"
    by blast
  have "\<lfloor>(1 / 2 :: real) * 255\<rfloor> = 127"
    by (simp add: floor_eq_iff)
  with r [rule_format, of 0 0 0] d have "uint (data3 bytes 0 0 0) = 127"
    by simp
  with b d show ?thesis by blast
qed

text \<open>
  A sample above 1 is not clamped to 255: the pixel 2 is scaled to 510 and saved as the
  byte 254, which is 510 modulo 256.
\<close>

theorem write_image_no_clamp_counterexample:
  "data3 (heap bright_store 0) 0 0 0 = 2
   \<and> (\<exists>bytes. files (write_image bright_store 0 ''output.jpg'') ''output.jpg'' = Some bytes
         \<and> data3 bytes 0 0 0 = 254 \<and> data3 bytes 0 0 0 \<noteq> 255)"
  by (simp add: files_write_image bright_store_def example_store_def empty_store_def
      astype_uint8_def truncate_real_def)



section \<open>The generated kernels\<close>

lemma length_arange: "length (arange (- r) (r + 1)) = nat (2 * r + 1)"
  by (simp add: arange_def range2_def)

lemma nth_arange:
  assumes "0 \<le> j" "j < 2 * r + 1"
  shows "arange (- r) (r + 1) ! nat j = real_of_int (j - r)"
proof -
  have "nat j < length [- r..r]" using assms by simp
  moreover have "[- r..r] ! nat j = - r + int (nat j)"
    using assms by (intro nth_upto) simp
  ultimately show ?thesis
    using assms by (simp add: arange_def range2_def)
qed

lemma foldl_np_add_Num: "foldl np_add (Num a) (map Num xs) = Num (a + sum_list xs)"
  by (induction xs arbitrary: a) (simp_all add: add.assoc)

lemma sum_list_range1: "sum_list (map f (range1 n)) = (\<Sum>i = 0..int n - 1. f i)"
  by (simp add: range1_def sum_list_upto)

lemma sum_list_concat_map: "sum_list (concat xss) = sum_list (map sum_list xss)"
  by (induction xss) simp_all

lemma np_sum2_Num:
  assumes "\<And>i j. i \<in> set (range1 (fst (shape2 a))) \<Longrightarrow> j \<in> set (range1 (snd (shape2 a)))
             \<Longrightarrow> data2 a i j = Num (f i j)"
  shows "np_sum2 a = Num (\<Sum>i = 0..int (fst (shape2 a)) - 1. \<Sum>j = 0..int (snd (shape2 a)) - 1. f i j)"
proof -
  have "elements2 a
      = map Num (concat (map (\<lambda>i. map (f i) (range1 (snd (shape2 a)))) (range1 (fst (shape2 a)))))"
    unfolding elements2_def map_concat map_map comp_def
    by (intro arg_cong [where f = concat] map_cong refl) (simp add: assms)
  then have "np_sum2 a
      = Num (sum_list (concat (map (\<lambda>i. map (f i) (range1 (snd (shape2 a))))
                                (range1 (fst (shape2 a))))))"
    by (simp add: np_sum2_def foldl_np_add_Num)
  also have "sum_list (concat (map (\<lambda>i. map (f i) (range1 (snd (shape2 a))))
                                (range1 (fst (shape2 a)))))
      = (\<Sum>i = 0..int (fst (shape2 a)) - 1. \<Sum>j = 0..int (snd (shape2 a)) - 1. f i j)"
    by (simp add: sum_list_concat_map comp_def sum_list_range1)
  finally show ?thesis .
qed

lemma np_sum1_Num: "np_sum1 (map Num xs) = Num (sum_list xs)"
  by (simp add: np_sum1_def foldl_np_add_Num)






lemma divisor_two: "divisor 2 = 8"
  using float_round_pow2 [of 53 "- 1074" 2] float_round_pow2 [of 24 "- 149" 3]
  by (simp add: divisor_def float32_def float64_def)


lemma gauss_pos: "0 < gauss d k"
  by (simp add: gauss_def)

lemma gauss_product:
  "exp (- ((real_of_int dx)\<^sup>2 + (real_of_int dy)\<^sup>2) / d) = gauss d dy * gauss d dx"
proof -
  have "- ((real_of_int dx)\<^sup>2 + (real_of_int dy)\<^sup>2) / d
      = - ((real_of_int dy)\<^sup>2) / d + - ((real_of_int dx)\<^sup>2) / d"
    by (simp add: add_divide_distrib diff_divide_distrib)
  then show ?thesis
    by (simp only: gauss_def exp_add)
qed



lemma radius_pos: "0 < sigma \<Longrightarrow> 3 \<le> radius sigma"
proof -
  assume "0 < sigma"
  then have "1 \<le> \<lceil>sigma\<rceil>" by (simp add: ceiling_le_iff le_ceiling_iff) 
  then show ?thesis by (simp add: radius_def)
qed

text \<open>The sum of the unnormalised weights over the grid of the 2D kernel.\<close>

lemma grid_sum_pos:
  assumes "0 \<le> r"
  shows "0 < (\<Sum>i = 0..2 * r. \<Sum>j = 0..2 * r. gauss d (i - r) * gauss d (j - r))"
proof -
  have "0 < (\<Sum>j = 0..2 * r. gauss d (j - r))"
    by (rule sum_pos) (use assms gauss_pos in auto)
  then have "0 < (\<Sum>i = 0..2 * r. gauss d (i - r)) * (\<Sum>j = 0..2 * r. gauss d (j - r))"
    by simp
  then show ?thesis
    by (simp add: sum_product)
qed

lemma gaussian_kernel_2d_shape:
  "shape2 (gaussian_kernel_2d sigma) = (side sigma, side sigma)"
  by (simp add: gaussian_kernel_2d_def meshgrid_def Let_def length_arange side_def radius_def)

lemma gaussian_kernel_2d_data:
  assumes "0 < sigma" and dv: "0 < divisor sigma"
    and "0 \<le> i" "i < int (side sigma)" and "0 \<le> j" "j < int (side sigma)"
  shows "data2 (gaussian_kernel_2d sigma) i j
     = Num (gauss (divisor sigma) (i - radius sigma) * gauss (divisor sigma) (j - radius sigma)
            / (\<Sum>i = 0..2 * radius sigma. \<Sum>j = 0..2 * radius sigma.
                 gauss (divisor sigma) (i - radius sigma) * gauss (divisor sigma) (j - radius sigma)))"
proof -
  define r where "r = radius sigma"
  define ax where "ax = arange (- r) (r + 1)"
  define kern :: "npfloat array2" where
    "kern = \<lparr>shape2 = (length ax, length ax),
             data2 = (\<lambda>i j. np_exp (np_true_divide (- ((ax ! nat j)\<^sup>2 + (ax ! nat i)\<^sup>2))
                                       (divisor sigma)))\<rparr>"
  have r: "0 \<le> r" using radius_pos [OF assms(1)] by (simp add: r_def)
  have len: "int (length ax) = 2 * r + 1"
    using r by (simp add: ax_def length_arange)
  have side: "int (side sigma) = 2 * r + 1"
    using r by (simp add: side_def r_def)
  have cell: "data2 kern i j = Num (gauss (divisor sigma) (i - r) * gauss (divisor sigma) (j - r))"
    if "0 \<le> i" "i < 2 * r + 1" "0 \<le> j" "j < 2 * r + 1" for i j
  proof -
    have n: "arange (- r) (r + 1) ! nat j = real_of_int (j - r)"
      "arange (- r) (r + 1) ! nat i = real_of_int (i - r)"
      using that by (simp_all only: nth_arange)
    have z: "divisor sigma \<noteq> 0"
      using dv by simp
    show ?thesis
      unfolding kern_def ax_def
      by (simp only: array2.select_convs n np_true_divide_def z not_False_eq_True if_True
          np_exp.simps gauss_product)
  qed
  have "np_sum2 kern = Num (\<Sum>i = 0..int (fst (shape2 kern)) - 1.
           \<Sum>j = 0..int (snd (shape2 kern)) - 1. gauss (divisor sigma) (i - r) * gauss (divisor sigma) (j - r))"
  proof (rule np_sum2_Num)
    fix i j
    assume "i \<in> set (range1 (fst (shape2 kern)))" "j \<in> set (range1 (snd (shape2 kern)))"
    then have "0 \<le> i" "i < 2 * r + 1" "0 \<le> j" "j < 2 * r + 1"
      using len by (simp_all add: kern_def set_range1)
    then show "data2 kern i j = Num (gauss (divisor sigma) (i - r) * gauss (divisor sigma) (j - r))"
      by (rule cell)
  qed
  then have total: "np_sum2 kern
      = Num (\<Sum>i = 0..2 * r. \<Sum>j = 0..2 * r. gauss (divisor sigma) (i - r) * gauss (divisor sigma) (j - r))"
    by (simp add: kern_def len)
  have "gaussian_kernel_2d sigma
      = \<lparr>shape2 = shape2 kern, data2 = (\<lambda>i j. np_divide (data2 kern i j) (np_sum2 kern))\<rparr>"
    by (simp add: gaussian_kernel_2d_def meshgrid_def Let_def kern_def ax_def r_def radius_def)
  then have "data2 (gaussian_kernel_2d sigma) i j = np_divide (data2 kern i j) (np_sum2 kern)"
    by simp
  also have "\<dots> = Num (gauss (divisor sigma) (i - r) * gauss (divisor sigma) (j - r)
            / (\<Sum>i = 0..2 * r. \<Sum>j = 0..2 * r. gauss (divisor sigma) (i - r) * gauss (divisor sigma) (j - r)))"
    using assms(3-6) grid_sum_pos [OF r, of "divisor sigma"]
    by (simp add: total cell side np_true_divide_def)
  finally show ?thesis
    by (simp add: r_def)
qed


















section \<open>Inputs outside the contract\<close>








section \<open>Two passes with a separable kernel\<close>

text \<open>
  A kernel that is a product of a column factor and a row factor gives the same window
  average as its row factor followed by its column factor: the clamped window is a
  rectangle, so the divisor of the single pass is the product of the divisors of the
  two passes.
\<close>

lemma separable_out_value:
  fixes h :: "int \<Rightarrow> real" and n :: nat and r :: int
  assumes hpos: "\<And>d. 0 < h d"
    and r: "int n = 2 * r + 1"
    and krow: "shape2 krow = (1, n)" "\<And>j. 0 \<le> j \<Longrightarrow> j < int n \<Longrightarrow> data2 krow 0 j = a * h (j - r)"
    and kcol: "shape2 kcol = (n, 1)" "\<And>i. 0 \<le> i \<Longrightarrow> i < int n \<Longrightarrow> data2 kcol i 0 = a * h (i - r)"
    and kjoint: "shape2 kjoint = (n, n)"
      "\<And>i j. 0 \<le> i \<Longrightarrow> i < int n \<Longrightarrow> 0 \<le> j \<Longrightarrow> j < int n
          \<Longrightarrow> data2 kjoint i j = b * (h (i - r) * h (j - r))"
    and ab: "0 < a" "0 < b"
    and sh: "shape3 mid = shape3 img"
    and mid: "\<And>c y x. (c, y, x) \<in> positions (shape3 img)
                  \<Longrightarrow> data3 mid c y x = out_value img krow c y x"
    and pos: "(c, y, x) \<in> positions (shape3 img)"
  shows "out_value mid kcol c y x = out_value img kjoint c y x"
proof -
  define H where "H = int (fst (snd (shape3 img)))"
  define W where "W = int (snd (snd (shape3 img)))"
  define U where "U = {max 0 (x - r)..min (W - 1) (x + r)}"
  define V where "V = {max 0 (y - r)..min (H - 1) (y + r)}"
  define Dx where "Dx = (\<Sum>u\<in>U. h (u - x))"
  define Dy where "Dy = (\<Sum>v\<in>V. h (v - y))"
  have r0: "0 \<le> r" and half: "int n div 2 = r"
    using r by simp_all
  from pos have c: "0 \<le> c" "c < int (fst (shape3 img))" and y: "0 \<le> y" "y < H"
    and x: "0 \<le> x" "x < W"
    by (auto simp: positions_def H_def W_def)
  have xU: "x \<in> U" and yV: "y \<in> V"
    using x y r0 by (auto simp: U_def V_def)
  have Dx: "0 < Dx" unfolding Dx_def
    by (rule sum_pos2 [OF _ xU]) (simp_all add: U_def hpos less_imp_le)
  have Dy: "0 < Dy" unfolding Dy_def
    by (rule sum_pos2 [OF _ yV]) (simp_all add: V_def hpos less_imp_le)
  have Ur: "0 \<le> u - x + r \<and> u - x + r < int n" if "u \<in> U" for u
    using that r by (auto simp: U_def)
  have Vr: "0 \<le> v - y + r \<and> v - y + r < int n" if "v \<in> V" for v
    using that r by (auto simp: V_def)
  have Vpos: "(c, v, x) \<in> positions (shape3 img)" if "v \<in> V" for v
    using that c x by (auto simp: V_def positions_def H_def W_def)
  text \<open>The row pass, at any row of the image.\<close>
  have row: "out_value img krow c v x = (\<Sum>u\<in>U. data3 img c v u * h (u - x)) / Dx"
    if "v \<in> V" for v
  proof -
    have v: "0 \<le> v" "v < H" using that by (auto simp: V_def)
    have single: "{max 0 v..min (H - 1) v} = {v}"
      using v by auto
    have "weighted_sum img krow c v x = (\<Sum>u\<in>U. data3 img c v u * (a * h (u - x)))"
      unfolding weighted_sum_def Let_def krow(1) fst_conv snd_conv half H_def [symmetric]
        W_def [symmetric] U_def [symmetric]
      by (rule sum.cong) (use Ur krow(2) in \<open>simp_all add: single\<close>)
    then have ws: "weighted_sum img krow c v x = a * (\<Sum>u\<in>U. data3 img c v u * h (u - x))"
      by (simp add: sum_distrib_left mult_ac)
    have "weight_total img krow v x = (\<Sum>u\<in>U. a * h (u - x))"
      unfolding weight_total_def Let_def krow(1) fst_conv snd_conv half H_def [symmetric]
        W_def [symmetric] U_def [symmetric]
      by (rule sum.cong) (use Ur krow(2) in \<open>simp_all add: single\<close>)
    then have wt: "weight_total img krow v x = a * Dx"
      by (simp add: Dx_def sum_distrib_left)
    show ?thesis
      using ab(1) by (simp add: out_value_def ws wt)
  qed
  text \<open>The column pass over the result of the row pass.\<close>
  have single: "{max 0 x..min (W - 1) x} = {x}"
    using x by auto
  have "weighted_sum mid kcol c y x = (\<Sum>v\<in>V. data3 mid c v x * (a * h (v - y)))"
    unfolding weighted_sum_def Let_def kcol(1) fst_conv snd_conv half sh H_def [symmetric]
      W_def [symmetric] V_def [symmetric]
    by (simp add: single) (rule sum.cong, use Vr kcol(2) in simp_all)
  also have "\<dots> = (\<Sum>v\<in>V. (\<Sum>u\<in>U. data3 img c v u * h (u - x)) / Dx * (a * h (v - y)))"
    by (rule sum.cong) (simp_all add: mid [OF Vpos] row)
  also have "\<dots> = a / Dx * (\<Sum>v\<in>V. \<Sum>u\<in>U. data3 img c v u * h (u - x) * h (v - y))"
    by (simp add: sum_distrib_left sum_distrib_right sum_divide_distrib mult_ac)
  finally have ws_sep: "weighted_sum mid kcol c y x
      = a / Dx * (\<Sum>v\<in>V. \<Sum>u\<in>U. data3 img c v u * h (u - x) * h (v - y))" .
  have "weight_total mid kcol y x = (\<Sum>v\<in>V. a * h (v - y))"
    unfolding weight_total_def Let_def kcol(1) fst_conv snd_conv half sh H_def [symmetric]
      W_def [symmetric] V_def [symmetric]
    by (simp add: single) (rule sum.cong, use Vr kcol(2) in simp_all)
  then have wt_sep: "weight_total mid kcol y x = a * Dy"
    by (simp add: Dy_def sum_distrib_left)
  text \<open>The single pass with the product kernel.\<close>
  have "weighted_sum img kjoint c y x
      = (\<Sum>u\<in>U. \<Sum>v\<in>V. data3 img c v u * (b * (h (v - y) * h (u - x))))"
    unfolding weighted_sum_def Let_def kjoint(1) fst_conv snd_conv half H_def [symmetric]
      W_def [symmetric] U_def [symmetric] V_def [symmetric]
    by (intro sum.cong refl) (use Ur Vr kjoint(2) in simp)
  also have "\<dots> = b * (\<Sum>u\<in>U. \<Sum>v\<in>V. data3 img c v u * h (u - x) * h (v - y))"
    by (simp add: sum_distrib_left mult_ac)
  also have "(\<Sum>u\<in>U. \<Sum>v\<in>V. data3 img c v u * h (u - x) * h (v - y))
      = (\<Sum>v\<in>V. \<Sum>u\<in>U. data3 img c v u * h (u - x) * h (v - y))"
    by (rule sum.swap)
  finally have ws_joint: "weighted_sum img kjoint c y x
      = b * (\<Sum>v\<in>V. \<Sum>u\<in>U. data3 img c v u * h (u - x) * h (v - y))" .
  have "weight_total img kjoint y x = (\<Sum>u\<in>U. \<Sum>v\<in>V. b * (h (v - y) * h (u - x)))"
    unfolding weight_total_def Let_def kjoint(1) fst_conv snd_conv half H_def [symmetric]
      W_def [symmetric] U_def [symmetric] V_def [symmetric]
    by (intro sum.cong refl) (use Ur Vr kjoint(2) in simp)
  also have "\<dots> = (\<Sum>u\<in>U. b * h (u - x) * Dy)"
    unfolding Dy_def sum_distrib_left by (intro sum.cong refl) (simp add: mult_ac)
  also have "\<dots> = b * (Dx * Dy)"
    unfolding Dx_def sum_distrib_left sum_distrib_right by (intro sum.cong refl) (simp add: mult_ac)
  finally have wt_joint: "weight_total img kjoint y x = b * (Dx * Dy)" .
  show ?thesis
    using ab Dx Dy by (simp add: out_value_def ws_sep wt_sep ws_joint wt_joint field_simps)
qed

section \<open>What convolve leaves unchanged\<close>

lemma only_written_refl: "only_written r s s"
  by (simp add: only_written_def)

lemma only_written_trans:
  "only_written r s t \<Longrightarrow> only_written r t u \<Longrightarrow> only_written r s u"
  by (simp add: only_written_def)

lemma for_each_preserves:
  assumes step: "\<And>a s s'. body a s = Inr s' \<Longrightarrow> R s s'"
    and refl: "\<And>s. R s s"
    and trans: "\<And>s t u. R s t \<Longrightarrow> R t u \<Longrightarrow> R s u"
  shows "for_each body xs s = Inr s' \<Longrightarrow> R s s'"
proof (induction xs arbitrary: s)
  case Nil
  then show ?case by (simp add: refl)
next
  case (Cons a xs)
  then obtain t where t: "body a s = Inr t" and rest: "for_each body xs t = Inr s'"
    by (auto split: sum.splits)
  from step [OF t] Cons.IH [OF rest] show ?case by (rule trans)
qed

lemma setitem3_only_written:
  "setitem3 s r c y x v = Inr s' \<Longrightarrow> only_written r s s'"
  by (auto simp: setitem3_def only_written_def Let_def split: option.splits)

lemma channel_step_only_written:
  "channel_step image_ref output_ref kern hh hw x y x_min x_max y_min y_max c s = Inr s'
     \<Longrightarrow> only_written output_ref s s'"
  by (auto simp: channel_step_def split: sum.splits prod.splits if_splits
      dest: setitem3_only_written)

lemma pixel_step_only_written:
  "pixel_step image_ref output_ref kern C H W hh hw x y s = Inr s'
     \<Longrightarrow> only_written output_ref s s'"
  unfolding pixel_step_def Let_def
  by (erule for_each_preserves [rotated -1])
    (auto intro: channel_step_only_written only_written_refl only_written_trans)

lemma convolve_only_written:
  assumes "convolve s image_ref output_ref kernel_ref = Inr s'"
  shows "only_written output_ref s s'"
proof -
  have row: "only_written output_ref t t'"
    if "for_each (pixel_step image_ref output_ref kern C H W hh hw x) ys t = Inr t'"
    for kern C H W hh hw x ys t t'
    using that
    by (rule for_each_preserves [rotated -1])
      (auto intro: pixel_step_only_written only_written_refl only_written_trans)
  from assms show ?thesis
    unfolding convolve_def Let_def
    by (rule for_each_preserves [rotated -1])
      (auto intro: row only_written_refl only_written_trans)
qed

section \<open>The kernels of the two modes\<close>

lemma gaussian_kernel_1d_shape: "shape2 (gaussian_kernel_1d sigma) = (1, side sigma)"
  by (simp add: gaussian_kernel_1d_def Let_def length_arange side_def radius_def)

lemma line_sum_pos:
  assumes "0 \<le> r"
  shows "0 < (\<Sum>k = - r..r. gauss d k)"
  by (rule sum_pos) (use assms gauss_pos in auto)

lemma gaussian_kernel_1d_data:
  assumes "0 < sigma" and dv: "0 < divisor sigma" and "0 \<le> j" "j < int (side sigma)"
  shows "data2 (gaussian_kernel_1d sigma) i j
     = Num (gauss (divisor sigma) (j - radius sigma) / (\<Sum>d = - radius sigma..radius sigma. gauss (divisor sigma) d))"
proof -
  define r where "r = radius sigma"
  define ax where "ax = arange (- r) (r + 1)"
  define f where "f = (\<lambda>a::real. exp (- (a\<^sup>2) / divisor sigma))"
  define kern where "kern = map (\<lambda>a. np_exp (np_true_divide (- (a\<^sup>2)) (divisor sigma))) ax"
  have r: "0 \<le> r" using radius_pos [OF assms(1)] by (simp add: r_def)
  have side: "int (side sigma) = 2 * r + 1"
    using r by (simp add: side_def r_def)
  have j: "nat j < length ax"
    using assms(3,4) side by (simp add: ax_def length_arange)
  have kern: "kern = map Num (map f ax)"
    using dv by (simp add: kern_def f_def np_true_divide_def)
  have "sum_list (map f ax) = (\<Sum>d = - r..r. f (real_of_int d))"
    by (simp add: ax_def arange_def range2_def comp_def sum_list_upto)
  also have "\<dots> = (\<Sum>d = - r..r. gauss (divisor sigma) d)"
    by (simp add: f_def gauss_def)
  finally have total: "np_sum1 kern = Num (\<Sum>d = - r..r. gauss (divisor sigma) d)"
    unfolding kern np_sum1_Num by simp
  have "ax ! nat j = real_of_int (j - r)"
    unfolding ax_def using assms(3,4) side by (intro nth_arange) simp_all
  then have cell: "kern ! nat j = Num (gauss (divisor sigma) (j - r))"
    using j by (simp add: kern f_def gauss_def)
  have "data2 (gaussian_kernel_1d sigma) i j = map (\<lambda>w. np_divide w (np_sum1 kern)) kern ! nat j"
    by (simp add: gaussian_kernel_1d_def Let_def kern_def ax_def r_def radius_def)
  also have "\<dots> = np_divide (kern ! nat j) (np_sum1 kern)"
    using j by (simp add: kern)
  also have "\<dots> = Num (gauss (divisor sigma) (j - r) / (\<Sum>d = - r..r. gauss (divisor sigma) d))"
    using line_sum_pos [OF r, of "divisor sigma"] by (simp add: cell total np_true_divide_def)
  finally show ?thesis by (simp add: r_def)
qed

lemma gaussian_kernel_1d_is_num:
  assumes "0 < sigma" "0 < divisor sigma"
  shows "list_all is_num (elements2 (gaussian_kernel_1d sigma))"
  using assms
  by (auto simp: elements2_def list_all_iff gaussian_kernel_1d_shape set_range1
      gaussian_kernel_1d_data)

lemma side_radius: "0 < sigma \<Longrightarrow> int (side sigma) = 2 * radius sigma + 1"
  using radius_pos [of sigma] by (simp add: side_def)

lemma odd_side: "0 < sigma \<Longrightarrow> odd (side sigma)"
  using radius_pos [of sigma] by (simp add: side_def even_nat_iff)

text \<open>Every generated kernel has non-negative weights and a positive centre weight.\<close>


lemma real_kernel_2d:
  assumes "0 < sigma" "0 < divisor sigma"
  shows "shape2 (real_kernel (gaussian_kernel_2d sigma)) = (side sigma, side sigma)"
    and "\<And>i j. 0 \<le> i \<Longrightarrow> i < int (side sigma) \<Longrightarrow> 0 \<le> j \<Longrightarrow> j < int (side sigma) \<Longrightarrow>
           data2 (real_kernel (gaussian_kernel_2d sigma)) i j
             = 1 / (\<Sum>i = 0..2 * radius sigma. \<Sum>j = 0..2 * radius sigma.
                      gauss (divisor sigma) (i - radius sigma) * gauss (divisor sigma) (j - radius sigma))
               * (gauss (divisor sigma) (i - radius sigma) * gauss (divisor sigma) (j - radius sigma))"
  using assms by (simp_all add: real_kernel_def gaussian_kernel_2d_shape gaussian_kernel_2d_data)

lemma real_kernel_1d:
  assumes "0 < sigma" "0 < divisor sigma"
  shows "shape2 (real_kernel (gaussian_kernel_1d sigma)) = (1, side sigma)"
    and "\<And>i j. 0 \<le> j \<Longrightarrow> j < int (side sigma) \<Longrightarrow>
           data2 (real_kernel (gaussian_kernel_1d sigma)) i j
             = 1 / (\<Sum>d = - radius sigma..radius sigma. gauss (divisor sigma) d)
               * gauss (divisor sigma) (j - radius sigma)"
  using assms by (simp_all add: real_kernel_def gaussian_kernel_1d_shape gaussian_kernel_1d_data)

lemma convolve_positive_kernel:
  assumes "image_ref \<noteq> output_ref"
    and "shape3 (heap s output_ref) = shape3 (heap s image_ref)"
    and "odd (fst (shape2 (kheap s kernel_ref)))" "odd (snd (shape2 (kheap s kernel_ref)))"
    and "\<And>i j. 0 \<le> i \<Longrightarrow> i < int (fst (shape2 (kheap s kernel_ref))) \<Longrightarrow> 0 \<le> j
            \<Longrightarrow> j < int (snd (shape2 (kheap s kernel_ref))) \<Longrightarrow> 0 < data2 (kheap s kernel_ref) i j"
  shows "convolve s image_ref output_ref kernel_ref
           = Inr (written s output_ref (out_value (heap s image_ref) (kheap s kernel_ref))
                    (positions (shape3 (heap s image_ref))))"
proof (rule convolve_written)
  fix c y x
  assume pos: "(c, y, x) \<in> positions (shape3 (heap s image_ref))"
  have "0 < weight_total (heap s image_ref) (kheap s kernel_ref) y x"
    using pos assms(3,4)
  proof (rule weight_total_pos)
    show "0 < data2 (kheap s kernel_ref) (int (fst (shape2 (kheap s kernel_ref))) div 2)
                                         (int (snd (shape2 (kheap s kernel_ref))) div 2)"
      using assms(3,4) by (intro assms(5)) (auto elim!: oddE)
  qed (simp add: assms(5) less_imp_le)
  then show "weight_total (heap s image_ref) (kheap s kernel_ref) y x \<noteq> 0"
    by simp
qed (use assms in simp_all)

section \<open>The two modes of the pipeline\<close>

lemma heap_written_zeros:
  assumes "heap s r = \<lparr>shape3 = shape3 img, data3 = (\<lambda>c y x. 0)\<rparr>"
  shows "heap (written s r (out_value img kern) (positions (shape3 img))) r = filtered img kern"
  by (simp add: written_def filtered_def assms cong: if_cong)

lemma filter_image_separable:
  assumes sigma: "0 < sigma" and dv: "0 < divisor sigma" and img: "img < next_free s0"
  shows "\<exists>s'. filter_image s0 img sigma True
                 = Inr (s', next_free s0,
                        [(img, next_free s0 + 2, next_free s0 + 1),
                         (next_free s0 + 2, next_free s0, next_free s0 + 3)])
           \<and> heap s' (next_free s0)
               = filtered (filtered (heap s0 img) (real_kernel (gaussian_kernel_1d sigma)))
                   (transpose2 (real_kernel (gaussian_kernel_1d sigma)))
           \<and> (\<forall>q. q \<noteq> next_free s0 \<and> q \<noteq> next_free s0 + 2 \<longrightarrow> heap s' q = heap s0 q)
           \<and> files s' = files s0"
proof -
  define a where "a = next_free s0"
  define ka where "ka = a + 1"
  define m where "m = a + 2"
  define kt where "kt = a + 3"
  define K where "K = real_kernel (gaussian_kernel_1d sigma)"
  define zeros :: "real array3" where
    "zeros = \<lparr>shape3 = shape3 (heap s0 img), data3 = (\<lambda>c y x. 0)\<rparr>"
  define s1 where "s1 = s0\<lparr>heap := (heap s0)(a := zeros), next_free := ka\<rparr>"
  define s2 where "s2 = s1\<lparr>kheap := (kheap s1)(ka := K), next_free := m\<rparr>"
  define s3 where "s3 = s2\<lparr>heap := (heap s2)(m := zeros), next_free := kt\<rparr>"
  define s4 where
    "s4 = written s3 m (out_value (heap s0 img) K) (positions (shape3 (heap s0 img)))"
  define s5 where "s5 = s4\<lparr>kheap := (kheap s4)(kt := transpose2 K), next_free := kt + 1\<rparr>"
  define mid where "mid = filtered (heap s0 img) K"
  define s6 where
    "s6 = written s5 a (out_value mid (transpose2 K)) (positions (shape3 mid))"
  have ne: "img \<noteq> a" "img \<noteq> m" "m \<noteq> a" using img by (simp_all add: a_def m_def)
  have z: "np_zeros s0 (shape3 (heap s0 img)) = (s1, a)"
    by (simp add: np_zeros_def s1_def a_def ka_def zeros_def)
  have k: "new_kernel s1 (gaussian_kernel_1d sigma) = Inr (s2, ka)"
    by (simp add: new_kernel_def gaussian_kernel_1d_is_num [OF sigma dv] s2_def s1_def K_def
        m_def ka_def)
  have h2: "heap s2 img = heap s0 img" "next_free s2 = m"
    using ne by (simp_all add: s2_def s1_def)
  have z2: "np_zeros s2 (shape3 (heap s2 img)) = (s3, m)"
    by (simp add: np_zeros_def h2 s3_def zeros_def kt_def m_def)
  have h3: "heap s3 img = heap s0 img" "kheap s3 ka = K" "heap s3 m = zeros"
    using ne by (simp_all add: s3_def s2_def s1_def)
  have Kpos: "0 < data2 K i j" if "0 \<le> j" "j < int (side sigma)" for i j
    using that line_sum_pos [of "radius sigma" "divisor sigma"] radius_pos [OF sigma] gauss_pos
    by (simp add: K_def real_kernel_1d [OF sigma dv])
  have Ksh: "shape2 K = (1, side sigma)"
    by (simp add: K_def real_kernel_1d(1) [OF sigma dv])
  have "convolve s3 img m ka
      = Inr (written s3 m (out_value (heap s3 img) (kheap s3 ka))
               (positions (shape3 (heap s3 img))))"
    using ne(2)
    by (rule convolve_positive_kernel)
      (simp_all add: h3 Ksh odd_side [OF sigma] Kpos zeros_def)
  then have c1: "convolve s3 img m ka = Inr s4"
    by (simp add: h3 s4_def)
  have "kheap s4 ka = K" "next_free s4 = kt"
    by (simp_all add: s4_def written_def s3_def s2_def)
  then have t: "transpose_kernel s4 ka = (s5, kt)"
    by (simp add: transpose_kernel_def s5_def)
  have h4: "heap s4 m = mid"
    unfolding s4_def mid_def by (rule heap_written_zeros) (simp add: h3 zeros_def)
  have h5: "heap s5 m = mid" "kheap s5 kt = transpose2 K" "heap s5 a = zeros"
    using h4 ne by (simp_all add: s5_def s4_def heap_written_other s3_def s2_def s1_def)
  have msh: "shape3 mid = shape3 (heap s0 img)"
    by (simp add: mid_def filtered_def)
  have "convolve s5 m a kt
      = Inr (written s5 a (out_value (heap s5 m) (kheap s5 kt))
               (positions (shape3 (heap s5 m))))"
    using ne(3)
    by (rule convolve_positive_kernel)
      (simp_all add: h5 msh transpose2_def Ksh odd_side [OF sigma] Kpos zeros_def)
  then have c2: "convolve s5 m a kt = Inr s6"
    by (simp add: h5 s6_def)
  have "filter_image s0 img sigma True = Inr (s6, a, [(img, m, ka), (m, a, kt)])"
    by (simp add: filter_image_def z k z2 c1 t c2 logged_convolve_def)
  moreover have "heap s6 a = filtered mid (transpose2 K)"
    unfolding s6_def by (rule heap_written_zeros) (simp add: h5 zeros_def msh)
  moreover have "\<forall>q. q \<noteq> a \<and> q \<noteq> m \<longrightarrow> heap s6 q = heap s0 q"
    by (simp add: s6_def heap_written_other s5_def s4_def s3_def s2_def s1_def)
  moreover have "files s6 = files s0"
    by (simp add: s6_def written_def s5_def s4_def s3_def s2_def s1_def)
  ultimately show ?thesis
    unfolding ka_def m_def kt_def a_def K_def mid_def by blast
qed

lemma read_image_fresh:
  assumes "read_image s path = Inr (s0, img)"
  shows "img = next_free s" and "next_free s0 = next_free s + 1"
  using assms by (auto simp: read_image_def Let_def split: option.splits prod.splits)

lemma filtered_separable:
  assumes sigma: "0 < sigma" and dv: "0 < divisor sigma"
  shows "filtered (filtered img (real_kernel (gaussian_kernel_1d sigma)))
           (transpose2 (real_kernel (gaussian_kernel_1d sigma)))
         = filtered img (real_kernel (gaussian_kernel_2d sigma))"
proof -
  define K1 where "K1 = real_kernel (gaussian_kernel_1d sigma)"
  define K2 where "K2 = real_kernel (gaussian_kernel_2d sigma)"
  define mid where "mid = filtered img K1"
  define a where "a = 1 / (\<Sum>d = - radius sigma..radius sigma. gauss (divisor sigma) d)"
  define b where "b = 1 / (\<Sum>i = 0..2 * radius sigma. \<Sum>j = 0..2 * radius sigma.
                      gauss (divisor sigma) (i - radius sigma) * gauss (divisor sigma) (j - radius sigma))"
  have r: "0 \<le> radius sigma" using radius_pos [OF sigma] by simp
  have ab: "0 < a" "0 < b"
    using line_sum_pos [OF r, of "divisor sigma"] grid_sum_pos [OF r, of "divisor sigma"]
    by (simp_all add: a_def b_def)
  have msh: "shape3 mid = shape3 img"
    by (simp add: mid_def filtered_def)
  have "out_value mid (transpose2 K1) c y x = out_value img K2 c y x"
    if "(c, y, x) \<in> positions (shape3 img)" for c y x
  proof (rule separable_out_value [where h = "gauss (divisor sigma)" and n = "side sigma"
        and r = "radius sigma" and krow = K1 and a = a and b = b])
    show "int (side sigma) = 2 * radius sigma + 1" using sigma by (rule side_radius)
    show "shape2 K1 = (1, side sigma)" by (simp add: K1_def real_kernel_1d(1) [OF sigma dv])
    show "shape2 (transpose2 K1) = (side sigma, 1)"
      by (simp add: transpose2_def K1_def real_kernel_1d(1) [OF sigma dv])
    show "shape2 K2 = (side sigma, side sigma)" by (simp add: K2_def real_kernel_2d(1) [OF sigma dv])
    show "data2 K1 0 j = a * gauss (divisor sigma) (j - radius sigma)"
      if "0 \<le> j" "j < int (side sigma)" for j
      using that by (simp add: K1_def a_def real_kernel_1d(2) [OF sigma dv])
    show "data2 (transpose2 K1) i 0 = a * gauss (divisor sigma) (i - radius sigma)"
      if "0 \<le> i" "i < int (side sigma)" for i
      using that by (simp add: transpose2_def K1_def a_def real_kernel_1d(2) [OF sigma dv])
    show "data2 K2 i j = b * (gauss (divisor sigma) (i - radius sigma) * gauss (divisor sigma) (j - radius sigma))"
      if "0 \<le> i" "i < int (side sigma)" "0 \<le> j" "j < int (side sigma)" for i j
      using that by (simp add: K2_def b_def real_kernel_2d(2) [OF sigma dv])
    show "data3 mid c y x = out_value img K1 c y x"
      if "(c, y, x) \<in> positions (shape3 img)" for c y x
      using that by (simp add: mid_def filtered_def)
  qed (use ab msh that gauss_pos in simp_all)
  then have "data3 (filtered mid (transpose2 K1)) = data3 (filtered img K2)"
    by (intro ext) (simp add: filtered_def msh)
  then show ?thesis
    by (simp add: filtered_def msh K1_def K2_def mid_def)
qed

section \<open>Buffers read and buffers written\<close>

lemma logged_convolve_Inr:
  assumes "logged_convolve (s, l) i out k = Inr (s', l')"
  shows "convolve s i out k = Inr s'" and "l' = l @ [(i, out, k)]"
  using assms by (auto simp: logged_convolve_def split: sum.splits)

lemma filter_image_calls:
  assumes f: "filter_image s0 img sigma sep = Inr (s1, output, calls)"
    and img: "img < next_free s0"
  shows "output = next_free s0"
    and "calls = (if sep then [(img, next_free s0 + 2, next_free s0 + 1),
                               (next_free s0 + 2, next_free s0, next_free s0 + 3)]
                  else [(img, next_free s0, next_free s0 + 1)])"
    and "heap s1 img = heap s0 img"
proof -
  define a where "a = next_free s0"
  define z where "z = s0\<lparr>heap := (heap s0)(a := \<lparr>shape3 = shape3 (heap s0 img),
                                                data3 = (\<lambda>c y x. 0)\<rparr>),
                        next_free := a + 1\<rparr>"
  have ne: "img \<noteq> a" "img \<noteq> a + 2" using img by (simp_all add: a_def)
  have nz: "np_zeros s0 (shape3 (heap s0 img)) = (z, a)"
    by (simp add: np_zeros_def z_def a_def)
  have "output = a
      \<and> calls = (if sep then [(img, a + 2, a + 1), (a + 2, a, a + 3)] else [(img, a, a + 1)])
      \<and> heap s1 img = heap s0 img"
  proof (cases sep)
    case False
    with f nz obtain s2 kr where k: "new_kernel z (gaussian_kernel_2d sigma) = Inr (s2, kr)"
      and c: "logged_convolve (s2, []) img a kr = Inr (s1, calls)" and o: "output = a"
      by (auto simp: filter_image_def split: sum.splits prod.splits)
    from k have kr: "kr = a + 1" and h2: "heap s2 = heap z"
      by (auto simp: new_kernel_def z_def split: if_splits)
    from logged_convolve_Inr [OF c] have "convolve s2 img a kr = Inr s1"
      and l: "calls = [(img, a, kr)]"
      by simp_all
    then have "only_written a s2 s1" by (intro convolve_only_written)
    then have "heap s1 img = heap s0 img"
      using ne by (simp add: only_written_def h2 z_def)
    with o l kr False show ?thesis by simp
  next
    case True
    with f nz obtain s2 kr where k: "new_kernel z (gaussian_kernel_1d sigma) = Inr (s2, kr)"
      and rest: "(case np_zeros s2 (shape3 (heap s2 img)) of
           (s3, intermediate) \<Rightarrow>
             (case logged_convolve (s3, []) img intermediate kr of
                Inl e \<Rightarrow> Inl e
              | Inr (s4, calls) \<Rightarrow>
                  (case transpose_kernel s4 kr of
                     (s5, kernel_1d_t) \<Rightarrow>
                       (case logged_convolve (s5, calls) intermediate a kernel_1d_t of
                          Inl e \<Rightarrow> Inl e
                        | Inr (s6, calls') \<Rightarrow> Inr (s6, a, calls')))))
         = Inr (s1, output, calls)"
      by (auto simp: filter_image_def split: sum.splits prod.splits)
    from k have kr: "kr = a + 1" and h2: "heap s2 = heap z" "next_free s2 = a + 2"
      by (auto simp: new_kernel_def z_def split: if_splits)
    define s3 where "s3 = s2\<lparr>heap := (heap s2)(a + 2 := \<lparr>shape3 = shape3 (heap s2 img),
                                                        data3 = (\<lambda>c y x. 0)\<rparr>),
                            next_free := a + 2 + 1\<rparr>"
    have nz2: "np_zeros s2 (shape3 (heap s2 img)) = (s3, a + 2)"
      by (simp add: np_zeros_def s3_def h2)
    from rest nz2 obtain s4 l1 where c1: "logged_convolve (s3, []) img (a + 2) kr = Inr (s4, l1)"
      and rest2: "(case transpose_kernel s4 kr of
                    (s5, kernel_1d_t) \<Rightarrow>
                      (case logged_convolve (s5, l1) (a + 2) a kernel_1d_t of
                         Inl e \<Rightarrow> Inl e
                       | Inr (s6, calls') \<Rightarrow> Inr (s6, a, calls')))
         = Inr (s1, output, calls)"
      by (auto split: sum.splits prod.splits)
    from logged_convolve_Inr [OF c1] have cv1: "convolve s3 img (a + 2) kr = Inr s4"
      and l1: "l1 = [(img, a + 2, kr)]"
      by simp_all
    from cv1 have w1: "only_written (a + 2) s3 s4" by (rule convolve_only_written)
    define s5 where "s5 = s4\<lparr>kheap := (kheap s4)(next_free s4 := transpose2 (kheap s4 kr)),
                            next_free := next_free s4 + 1\<rparr>"
    have tk: "transpose_kernel s4 kr = (s5, next_free s4)"
      by (simp add: transpose_kernel_def s5_def)
    have n4: "next_free s4 = a + 3"
      using w1 by (simp add: only_written_def s3_def)
    from rest2 tk obtain c2: "logged_convolve (s5, l1) (a + 2) a (next_free s4) = Inr (s1, calls)"
      and o: "output = a"
      by (auto split: sum.splits prod.splits)
    from logged_convolve_Inr [OF c2] have cv2: "convolve s5 (a + 2) a (next_free s4) = Inr s1"
      and l2: "calls = l1 @ [(a + 2, a, next_free s4)]"
      by simp_all
    from cv2 have w2: "only_written a s5 s1" by (rule convolve_only_written)
    have "heap s1 img = heap s5 img"
      using w2 ne by (simp add: only_written_def)
    also have "\<dots> = heap s3 img"
      using w1 ne by (simp add: s5_def only_written_def)
    also have "\<dots> = heap s0 img"
      using ne by (simp add: s3_def h2 z_def)
    finally have "heap s1 img = heap s0 img" .
    with o l2 l1 kr n4 True show ?thesis by simp
  qed
  then show "output = next_free s0"
    and "calls = (if sep then [(img, next_free s0 + 2, next_free s0 + 1),
                               (next_free s0 + 2, next_free s0, next_free s0 + 3)]
                  else [(img, next_free s0, next_free s0 + 1)])"
    and "heap s1 img = heap s0 img"
    by (simp_all add: a_def)
qed

text \<open>
  Why the two arrays of a call must differ: with the row (3, 5) as image and as output,
  the second window reads the first result, 11/3, where the image held 3, and the second
  pixel becomes 41/9 instead of 13/3.
\<close>

lemma upto_01: "[0..1::int] = [0, 1]"
  by (simp add: upto.simps)

lemma convolve_aliased_example:
  "\<exists>s'. convolve row_store 0 0 0 = Inr s'
      \<and> data3 (heap s' 0) 0 0 0 = 11 / 3 \<and> data3 (heap s' 0) 0 0 1 = 41 / 9"
  by (simp add: row_store_def example_store_def empty_store_def convolve_def
      pixel_step_def channel_step_def tap_step_def getitem2_def getitem3_def setitem3_def
      norm_index_def wrap_index_def range1_def range2_def Let_def upto_01)

text \<open>
  C8. A call of \<open>convolve\<close> that returns has changed nothing but the elements of its
  output array: every other array of the store, the input image among them when it is
  not the output, and every kernel are as before. In \<open>main\<close>, after \<open>read_image\<close>, no
  call of \<open>convolve\<close> is given the same array as image and as output, and the decoded
  image is never written; in separable mode the two calls go from the image to the
  intermediate array and from the intermediate array to the output, three distinct
  arrays.
\<close>

theorem convolve_calls_not_aliased:
  "(convolve s image_ref output_ref kernel_ref = Inr s' \<longrightarrow>
       (\<forall>q. q \<noteq> output_ref \<longrightarrow> heap s' q = heap s q)
       \<and> (image_ref \<noteq> output_ref \<longrightarrow> heap s' image_ref = heap s image_ref)
       \<and> kheap s' = kheap s)
   \<and> (read_image t input_file = Inr (s0, img)
        \<and> filter_image s0 img sigma seperate_filters = Inr (s1, output, calls) \<longrightarrow>
       (\<forall>(i, out, k) \<in> set calls. i \<noteq> out)
       \<and> heap s1 img = heap s0 img
       \<and> (seperate_filters \<longrightarrow>
            (\<exists>intermediate k kt.
                calls = [(img, intermediate, k), (intermediate, output, kt)]
                \<and> intermediate \<noteq> img \<and> intermediate \<noteq> output \<and> output \<noteq> img)))"
proof (intro conjI impI)
  assume "convolve s image_ref output_ref kernel_ref = Inr s'"
  then have w: "only_written output_ref s s'" by (rule convolve_only_written)
  then show "\<forall>q. q \<noteq> output_ref \<longrightarrow> heap s' q = heap s q" and "kheap s' = kheap s"
    by (simp_all add: only_written_def)
  show "heap s' image_ref = heap s image_ref" if "image_ref \<noteq> output_ref"
    using w that by (simp add: only_written_def)
next
  assume a: "read_image t input_file = Inr (s0, img)
        \<and> filter_image s0 img sigma seperate_filters = Inr (s1, output, calls)"
  then have img: "img < next_free s0"
    using read_image_fresh [of t input_file s0 img] by simp
  note fc = filter_image_calls [OF a [THEN conjunct2] img]
  show "\<forall>(i, out, k) \<in> set calls. i \<noteq> out"
    using img by (auto simp: fc(2))
  show "heap s1 img = heap s0 img" by (rule fc(3))
  show "\<exists>intermediate k kt.
                calls = [(img, intermediate, k), (intermediate, output, kt)]
                \<and> intermediate \<noteq> img \<and> intermediate \<noteq> output \<and> output \<noteq> img"
    if "seperate_filters"
    using that img by (simp add: fc(1,2))
qed

theorem convolve_calls_not_aliased_witness:
  "(\<exists>s'. convolve row_store 0 1 0 = Inr s'
         \<and> heap s' 0 = heap row_store 0 \<and> kheap s' = kheap row_store)
   \<and> (\<exists>s0 img s1 output calls.
         read_image file_store ''androids.jpg'' = Inr (s0, img)
         \<and> filter_image s0 img 2 True = Inr (s1, output, calls)
         \<and> calls = [(0, 3, 2), (3, 1, 4)]
         \<and> heap s1 img = heap s0 img)"
proof -
  have "convolve row_store 0 1 0
      = Inr (written row_store 1 (out_value (heap row_store 0) (kheap row_store 0))
               (positions (shape3 (heap row_store 0))))"
    by (rule convolve_positive_kernel)
      (simp_all add: row_store_def example_store_def empty_store_def)
  then obtain s' where c: "convolve row_store 0 1 0 = Inr s'" ..
  from convolve_calls_not_aliased [of row_store 0 1 0 s', THEN conjunct1, THEN mp, OF c]
  have 1: "heap s' 0 = heap row_store 0 \<and> kheap s' = kheap row_store"
    by simp
  obtain s0 where r: "read_image file_store ''androids.jpg'' = Inr (s0, 0)"
    and n: "next_free s0 = 1"
    by (simp add: read_image_def file_store_def empty_store_def)
  from filter_image_separable [of 2 0 s0] n
  obtain s1 where f: "filter_image s0 0 2 True = Inr (s1, 1, [(0, 3, 2), (3, 1, 4)])"
    by (auto simp: divisor_two)
  from convolve_calls_not_aliased [THEN conjunct2, THEN mp, OF conjI [OF r f]]
  have "heap s1 0 = heap s0 0"
    by simp
  with c 1 r f show ?thesis by blast
qed

end
